theory Spec2Isabelle
  imports Main "HOL-Library.Word" "HOL-Library.List_Lexorder" "HOL-Library.Multiset"
begin

unbundle bit_operations_syntax

section \<open>Bit-level primitives\<close>

text \<open>
  The upper triangle of the adjacency matrix is packed into a \<open>std::uint64_t\<close>
  (\<open>triu\<close>); the invariant vector is a \<open>std::vector<int>\<close> (\<open>repr\<close>).
\<close>

type_synonym triu = "64 word"
type_synonym repr = "int list"

text \<open>\<open>__builtin_popcountll\<close>: the number of set bits of a 64-bit value.\<close>

definition popcountll :: "triu \<Rightarrow> nat" where
  "popcountll w = length (filter (bit w) [0..<64])"

text \<open>
  \<open>__builtin_ctzll\<close>: the number of trailing zero bits. The builtin is undefined at 0;
  the model returns 64 there, and no theorem below relies on that value.
\<close>

definition ctzll :: "triu \<Rightarrow> nat" where
  "ctzll w = length (takeWhile (\<lambda>i. \<not> bit w i) [0..<64])"

text \<open>
  \<open>upperTriuIndex\<close> (graph.h): the arithmetic is done in \<open>unsigned int\<close>, so the
  model computes in 32-bit words and reads the result as a \<open>size_t\<close>.
\<close>

definition upperTriuIndex :: "nat \<Rightarrow> nat \<Rightarrow> nat \<Rightarrow> nat" where
  "upperTriuIndex i j nNodes =
     (let a = (if i > j then j else i);
          b = (if i > j then i else j);
          wa = (of_nat a :: 32 word);
          wb = (of_nat b :: 32 word);
          wn = (of_nat nNodes :: 32 word)
      in unat (wa * wn - (wa * wa + 3 * wa) div 2 + wb - 1))"

section \<open>Helper functions of the edge generator\<close>

text \<open>
  \<open>calculateDegreeFilter\<close>: for node \<open>k\<close> the mask ORs the bit of every edge
  \<open>(u, k)\<close> with \<open>u < k\<close> and then of every edge \<open>(k, v)\<close> with \<open>v > k\<close>; the bit of
  the edge with index \<open>count\<close> is \<open>1 << (maxSize - 1 - count)\<close>.
\<close>

definition calculateDegreeFilter :: "nat \<Rightarrow> triu list" where
  "calculateDegreeFilter nNodes =
     (let maxSize = nNodes * (nNodes - 1) div 2 in
      map (\<lambda>k.
        fold (\<lambda>v r. r OR push_bit (maxSize - 1 - upperTriuIndex k v nNodes) 1)
          [k + 1..<nNodes]
          (fold (\<lambda>u r. r OR push_bit (maxSize - 1 - upperTriuIndex u k nNodes) 1)
             [0..<k] 0))
        [0..<nNodes])"

definition checkDegrees :: "triu \<Rightarrow> triu list \<Rightarrow> nat \<Rightarrow> 32 word \<Rightarrow> 32 word \<Rightarrow> bool" where
  "checkDegrees triAdjMat degFilter nNodes maxDegree minDegree =
     list_all (\<lambda>i.
        let count = popcountll (triAdjMat AND degFilter ! i)
        in \<not> (count > unat maxDegree \<or> count < unat minDegree))
       [0..<nNodes]"

text \<open>
  \<open>nextBitPermutation\<close> (edge\_generator.h), on wrapping 64-bit arithmetic:
  \<open>t = v | (v - 1); return (t + 1) | (((~t & -~t) - 1) >> (ctz(v) + 1))\<close>.
\<close>

definition nextBitPermutation :: "triu \<Rightarrow> triu" where
  "nextBitPermutation v =
     (let t = v OR (v - 1)
      in (t + 1) OR drop_bit (ctzll v + 1) (((NOT t) AND (- (NOT t))) - 1))"

text \<open>\<open>indices.erase(indices.begin() + i)\<close>.\<close>

definition erase :: "nat \<Rightarrow> 'a list \<Rightarrow> 'a list" where
  "erase i xs = take i xs @ drop (Suc i) xs"

text \<open>
  \<open>generatePermutations\<close>: the recursion over the positions of the node sequence. For the
  position \<open>currentIndex\<close> each index of the pool of its colour is taken in turn, removed
  from the pool for the recursive call and put back at the same place afterwards, so
  every iteration of the loop sees the pool the call was entered with; the model passes
  the reduced pool and the updated buffer down by value and concatenates the
  permutations pushed by the iterations in order. \<open>indexMap.at\<close> throws on a colour
  without a pool (\<open>None\<close>); reading \<open>nodes[currentIndex]\<close> beyond the end is out of
  range (\<open>None\<close>).
\<close>

function generatePermutations ::
  "nat list \<Rightarrow> nat list \<Rightarrow> (nat \<rightharpoonup> nat list) \<Rightarrow> nat \<Rightarrow> nat list list option" where
  "generatePermutations nds currentPermutation indexMap currentIndex =
     (if currentIndex = length nds then Some [currentPermutation]
      else if currentIndex > length nds then None
      else
        (case indexMap (nds ! currentIndex) of
           None \<Rightarrow> None
         | Some indices \<Rightarrow>
             map_option concat (those (map (\<lambda>i.
               generatePermutations nds
                 (currentPermutation[currentIndex := indices ! i])
                 (indexMap(nds ! currentIndex \<mapsto> erase i indices))
                 (currentIndex + 1))
               [0..<length indices]))))"
  by pat_completeness auto
termination
  by (relation "measure (\<lambda>(nds, cp, im, ci). length nds - ci)") auto

declare generatePermutations.simps [simp del]

section \<open>The graph candidate\<close>

text \<open>
  The class \<open>Graph\<close> (graph.h). The three tables behind the pointers are computed once
  per call of \<open>generateEdges\<close> and only read by the graphs, so the record holds their
  values.
\<close>

record Graph =
  nNodes :: nat
  nodes :: "nat list"
  representation :: repr
  connected :: bool
  adjacencyTriu :: triu
  degreeFilter :: "triu list"
  adjacencyTriuMasks :: "triu list"
  permutations :: "nat list list"

definition isEdge :: "Graph \<Rightarrow> nat \<Rightarrow> nat \<Rightarrow> bool" where
  "isEdge g u v =
     (if u = v then False
      else adjacencyTriu g AND adjacencyTriuMasks g ! upperTriuIndex u v (nNodes g) \<noteq> 0)"

text \<open>
  \<open>Graph::checkConnected\<close>. The body of the \<open>for\<close> loop over \<open>i\<close> for one dequeued node:
  an unvisited neighbour is marked in the 64-bit \<open>visited\<close> set and enqueued.
\<close>

definition bfsVisit :: "Graph \<Rightarrow> nat \<Rightarrow> 64 word \<times> nat list \<Rightarrow> 64 word \<times> nat list" where
  "bfsVisit g current =
     fold (\<lambda>i (visited, queue).
        if visited AND push_bit i 1 = 0 \<and> isEdge g current i
        then (visited OR push_bit i 1, queue @ [i])
        else (visited, queue))
       [0..<nNodes g]"

text \<open>The \<open>while (!queue.empty())\<close> loop; \<open>None\<close> is a loop that does not end.\<close>

partial_function (option) bfsLoop ::
  "Graph \<Rightarrow> 64 word \<Rightarrow> nat list \<Rightarrow> nat \<Rightarrow> nat option" where
  "bfsLoop g visited queue visitedCount =
     (case queue of
        [] \<Rightarrow> Some visitedCount
      | current # rest \<Rightarrow>
          (case bfsVisit g current (visited, rest) of
             (visited', queue') \<Rightarrow> bfsLoop g visited' queue' (visitedCount + 1)))"

declare bfsLoop.simps [code]

definition checkConnected :: "Graph \<Rightarrow> Graph option" where
  "checkConnected g =
     map_option (\<lambda>visitedCount. g\<lparr>connected := (visitedCount = nNodes g)\<rparr>)
       (bfsLoop g 1 [0] 0)"

text \<open>
  \<open>Graph::calculateRepresentation\<close>, in its three parts. \<open>degreesList\<close> has one list per
  colour \<open>0 .. nodes[nNodes - 1]\<close>; \<open>edgeList\<close> is the square table of edge counts per
  colour pair, filled by a scan of all node pairs with a running mask index \<open>count\<close>.
\<close>

definition degreesList :: "Graph \<Rightarrow> int list list" where
  "degreesList g =
     (let maxNode = nodes g ! (nNodes g - 1) + 1 in
      fold (\<lambda>i dl. dl[nodes g ! i :=
              dl ! (nodes g ! i) @ [int (popcountll (adjacencyTriu g AND degreeFilter g ! i))]])
        [0..<nNodes g] (replicate maxNode []))"

definition edgeListStep ::
  "Graph \<Rightarrow> nat \<Rightarrow> nat \<Rightarrow> nat list list \<times> nat \<Rightarrow> nat list list \<times> nat" where
  "edgeListStep g i j = (\<lambda>(edgeList, count).
     ((if adjacencyTriu g AND adjacencyTriuMasks g ! count \<noteq> 0
       then (let a0 = nodes g ! i;
                 b0 = nodes g ! j;
                 a = (if a0 > b0 then b0 else a0);
                 b = (if a0 > b0 then a0 else b0)
             in edgeList[a := (edgeList ! a)[b := edgeList ! a ! b + 1]])
       else edgeList),
      count + 1))"

definition edgeList :: "Graph \<Rightarrow> nat list list" where
  "edgeList g =
     (let maxNode = nodes g ! (nNodes g - 1) + 1 in
      fst (fold (\<lambda>i st. fold (edgeListStep g i) [i + 1..<nNodes g] st)
             [0..<nNodes g] (replicate maxNode (replicate maxNode 0), 0)))"

definition calculateRepresentation :: "Graph \<Rightarrow> Graph" where
  "calculateRepresentation g =
     (let maxNode = nodes g ! (nNodes g - 1) + 1;
          el = edgeList g
      in g\<lparr>representation :=
            representation g
            @ [int (popcountll (adjacencyTriu g))]
            @ concat (map sort (degreesList g))
            @ concat (map (\<lambda>i. map (\<lambda>j. int (el ! i ! j)) [i..<maxNode]) [0..<maxNode])\<rparr>)"

text \<open>
  The constructor: the member initialisers, then connectivity, then the invariant
  vector.
\<close>

definition initGraph ::
  "nat list \<Rightarrow> triu \<Rightarrow> triu list \<Rightarrow> triu list \<Rightarrow> nat list list \<Rightarrow> Graph" where
  "initGraph nds adj degFilter masks perms =
     \<lparr>nNodes = length nds, nodes = nds, representation = [], connected = False,
      adjacencyTriu = adj, degreeFilter = degFilter, adjacencyTriuMasks = masks,
      permutations = perms\<rparr>"

definition newGraph ::
  "nat list \<Rightarrow> triu \<Rightarrow> triu list \<Rightarrow> triu list \<Rightarrow> nat list list \<Rightarrow> Graph option" where
  "newGraph nds adj degFilter masks perms =
     map_option calculateRepresentation
       (checkConnected (initGraph nds adj degFilter masks perms))"

text \<open>
  \<open>Graph::operator==\<close>: unequal invariant vectors are not equal; otherwise some
  permutation of the table must carry every pair \<open>i < j\<close> of this graph to a pair of the
  other graph with the same edge status.
\<close>

definition graphEq :: "Graph \<Rightarrow> Graph \<Rightarrow> bool" where
  "graphEq this other =
     (if representation this \<noteq> representation other then False
      else list_ex (\<lambda>permutation.
             list_all (\<lambda>i.
               list_all (\<lambda>j. isEdge this i j = isEdge other (permutation ! i) (permutation ! j))
                 [i + 1..<nNodes this])
               [0..<nNodes this])
             (permutations this))"

definition getEdges :: "Graph \<Rightarrow> (nat \<times> nat) list" where
  "getEdges g =
     concat (map (\<lambda>i. map (\<lambda>j. (i, j)) (filter (\<lambda>j. isEdge g i j) [i + 1..<nNodes g]))
       [0..<nNodes g])"

section \<open>The enumeration driver\<close>

text \<open>
  The \<open>while (v <= end)\<close> loop of one edge count: every value passing the degree check
  is appended, then \<open>v\<close> advances to the next value with the same number of set bits.
  \<open>None\<close> is a loop that does not end.
\<close>

partial_function (option) enumerateShell ::
  "triu \<Rightarrow> triu \<Rightarrow> triu list \<Rightarrow> nat \<Rightarrow> 32 word \<Rightarrow> 32 word \<Rightarrow> triu list \<Rightarrow> triu list option" where
  "enumerateShell v vend degFilter n maxDegree minDegree trius =
     (if v \<le> vend
      then enumerateShell (nextBitPermutation v) vend degFilter n maxDegree minDegree
             (if checkDegrees v degFilter n maxDegree minDegree then trius @ [v] else trius)
      else Some trius)"

declare enumerateShell.simps [code]

text \<open>
  The loop over the edge counts \<open>i = nNodes - 1 .. totalMaxEdges\<close>, run in the order of
  \<open>i\<close> (the order of one thread): \<open>v = (1 << i) - 1\<close>, \<open>end = v << (triuSize - i)\<close>.
\<close>

fun enumerateShells ::
  "nat list \<Rightarrow> nat \<Rightarrow> triu list \<Rightarrow> nat \<Rightarrow> 32 word \<Rightarrow> 32 word \<Rightarrow> triu list \<Rightarrow> triu list option" where
  "enumerateShells [] triuSize degFilter n maxDegree minDegree trius = Some trius"
| "enumerateShells (i # rest) triuSize degFilter n maxDegree minDegree trius =
     (let v = push_bit i 1 - 1;
          vend = push_bit (triuSize - i) v
      in case enumerateShell v vend degFilter n maxDegree minDegree trius of
           None \<Rightarrow> None
         | Some trius' \<Rightarrow> enumerateShells rest triuSize degFilter n maxDegree minDegree trius')"

text \<open>\<open>indexMap[nodes[i]].push_back(i)\<close> for every position \<open>i\<close>.\<close>

definition buildIndexMap :: "nat list \<Rightarrow> (nat \<rightharpoonup> nat list)" where
  "buildIndexMap nds =
     fold (\<lambda>i m. m(nds ! i \<mapsto> (case m (nds ! i) of None \<Rightarrow> [] | Some l \<Rightarrow> l) @ [i]))
       [0..<length nds] Map.empty"

text \<open>
  The \<open>std::map<repr, std::vector<Graph>>\<close> of the deduplication is an association list
  kept in the order of its keys (the lexicographic order of \<open>std::vector<int>\<close>). One
  step of the loop over the connected graphs: a new key gets a bucket of its own; in an
  existing bucket the graph is appended unless a retained graph equals it.
\<close>

definition dedupStep :: "Graph \<Rightarrow> (repr \<times> Graph list) list \<Rightarrow> (repr \<times> Graph list) list" where
  "dedupStep graph uniqueGraphs =
     (case map_of uniqueGraphs (representation graph) of
        None \<Rightarrow> insort_key fst (representation graph, [graph]) uniqueGraphs
      | Some bucket \<Rightarrow>
          if list_ex (\<lambda>uniqueGraph. graphEq uniqueGraph graph) bucket then uniqueGraphs
          else map (\<lambda>(k, b). if k = representation graph then (k, b @ [graph]) else (k, b))
                 uniqueGraphs)"

text \<open>
  The first phase of \<open>generateEdges\<close>: the degree filter, the range of edge counts and
  the list \<open>trius\<close> of the adjacency values that pass the degree check.
  \<open>nNodes * maxDegree\<close> is a product of \<open>unsigned int\<close> and wraps at 32 bits.
\<close>

definition candidateTrius :: "nat \<Rightarrow> 32 word \<Rightarrow> 32 word \<Rightarrow> triu list option" where
  "candidateTrius n maxDegree minDegree =
     (let degFilter = calculateDegreeFilter n;
          totalMaxEdges = min (unat (of_nat n * maxDegree) div 2) (n * (n - 1) div 2);
          triuSize = n * (n - 1) div 2
      in enumerateShells [n - 1..<totalMaxEdges + 1] triuSize degFilter n
           maxDegree minDegree [])"

text \<open>The precomputed masks \<open>adjTriuMasks\<close>, one per bit of the triangle.\<close>

definition adjTriuMasks :: "nat \<Rightarrow> triu list" where
  "adjTriuMasks n =
     (let numTriuBits = n * (n - 1) div 2 - 1
      in map (\<lambda>count. push_bit (numTriuBits - count) 1) [0..<numTriuBits + 1])"

text \<open>
  \<open>generateEdges\<close>. The two parallel loops are run in index order. Outside
  \<open>2 \<le> nNodes \<le> 11\<close> the C++ function has undefined behaviour (a shift by 64 or more
  bits, or \<open>ctz\<close> of 0), which the model returns as \<open>None\<close>.
\<close>

definition generateEdges :: "nat list \<Rightarrow> 32 word \<Rightarrow> 32 word \<Rightarrow> (nat \<times> nat) list list option" where
  "generateEdges nds maxDegree minDegree =
     (let n = length nds in
      if n < 2 \<or> 11 < n then None
      else
        case candidateTrius n maxDegree minDegree of
          None \<Rightarrow> None
        | Some trius \<Rightarrow>
            (case generatePermutations nds (replicate n 0) (buildIndexMap nds) 0 of
               None \<Rightarrow> None
             | Some perms \<Rightarrow>
                 (case those (map (\<lambda>t. newGraph nds t (calculateDegreeFilter n)
                                         (adjTriuMasks n) perms) trius) of
                    None \<Rightarrow> None
                  | Some allGraphs \<Rightarrow>
                      let graphs = filter connected allGraphs;
                          uniqueGraphs = fold dedupStep graphs [];
                          uniqueGraphsList = concat (map snd uniqueGraphs)
                      in Some (map getEdges uniqueGraphsList))))"

section \<open>The Python binding\<close>

text \<open>
  \<open>generatePyEdges\<close>, called with a tuple of Python integers and two Python integers
  for \<open>max_degree\<close> and \<open>min_degree\<close>. Each \<open>PyErr_SetString ... return nullptr\<close> is
  an error value.
\<close>

datatype py_error =
    MaxDegreeBelowMinDegree
  | NegativeMinDegree
  | EmptyNodeTuple
  | TooManyNodes
  | NegativeNodeValue
  | FirstNodeNotZero
  | NodesNotIncreasing

text \<open>\<open>PyLong_AsLong\<close>: a value outside the range of \<open>long\<close> is reported as \<open>-1\<close>.\<close>

definition PyLong_AsLong :: "int \<Rightarrow> int" where
  "PyLong_AsLong x = (if - (2 ^ 63) \<le> x \<and> x < 2 ^ 63 then x else - 1)"

text \<open>The conversion loop over the tuple, with the vector \<open>nodes\<close> built so far.\<close>

fun convertNodes :: "int list \<Rightarrow> nat list \<Rightarrow> py_error + nat list" where
  "convertNodes [] nds = Inr nds"
| "convertNodes (pyNode # rest) nds =
     (let node = PyLong_AsLong pyNode in
      if node < 0 then Inl NegativeNodeValue
      else if length nds = 0 \<and> node \<noteq> 0 then Inl FirstNodeNotZero
      else if length nds > 0 \<and> (node \<noteq> int (last nds) \<and> node \<noteq> int (last nds + 1))
        then Inl NodesNotIncreasing
      else convertNodes rest (nds @ [nat node]))"

text \<open>
  The format unit \<open>I\<close> of \<open>PyArg_ParseTupleAndKeywords\<close> converts a Python integer to a
  C \<open>unsigned int\<close> without overflow checking, that is modulo \<open>2 ^ 32\<close>; the binding
  stores the result in an \<open>int\<close>, so the comparisons that follow are signed.
\<close>

definition parseUnsignedInt :: "int \<Rightarrow> 32 word" where
  "parseUnsignedInt x = word_of_int x"

text \<open>
  The size of the tuple is cast to \<open>unsigned int\<close>, and the conversion loop reads the
  first \<open>size\<close> elements. The result is \<open>None\<close> when the call of \<open>generateEdges\<close> gives
  no result, an error \<open>Inl\<close>, or the list of edge lists \<open>Inr\<close>.
\<close>

definition generatePyEdges ::
  "int list \<Rightarrow> int \<Rightarrow> int \<Rightarrow> (py_error + (nat \<times> nat) list list) option" where
  "generatePyEdges nodeTuple max_degree min_degree =
     (let pyMaxDegree = parseUnsignedInt max_degree;
          pyMinDegree = parseUnsignedInt min_degree
      in
      if pyMaxDegree <s pyMinDegree then Some (Inl MaxDegreeBelowMinDegree)
      else if pyMinDegree <s 0 then Some (Inl NegativeMinDegree)
      else
        let size = length nodeTuple mod 2 ^ 32 in
        if size = 0 then Some (Inl EmptyNodeTuple)
        else if size > 11 then Some (Inl TooManyNodes)
        else
          (case convertNodes (take size nodeTuple) [] of
             Inl e \<Rightarrow> Some (Inl e)
           | Inr nds \<Rightarrow>
               if size > 1 then map_option Inr (generateEdges nds pyMaxDegree pyMinDegree)
               else Some (Inr [[]])))"

section \<open>Specification: the preconditions of the call\<close>

text \<open>
  The three error kinds of the specification and the preconditions they guard, on the
  caller's integers and tuple: the degree bounds (\<open>minDegree \<le> maxDegree\<close>, both
  non-negative), the node count (between 1 and 11) and the colouring
  (\<open>nodeColors[0] = 0\<close> and every later element equal to its predecessor or one more).
\<close>

datatype error_kind = InvalidDegreeBounds | InvalidNodeCount | InvalidColoring

fun errorKind :: "py_error \<Rightarrow> error_kind" where
  "errorKind MaxDegreeBelowMinDegree = InvalidDegreeBounds"
| "errorKind NegativeMinDegree = InvalidDegreeBounds"
| "errorKind EmptyNodeTuple = InvalidNodeCount"
| "errorKind TooManyNodes = InvalidNodeCount"
| "errorKind NegativeNodeValue = InvalidColoring"
| "errorKind FirstNodeNotZero = InvalidColoring"
| "errorKind NodesNotIncreasing = InvalidColoring"

definition validDegreeBounds :: "int \<Rightarrow> int \<Rightarrow> bool" where
  "validDegreeBounds maxDegree minDegree = (0 \<le> minDegree \<and> minDegree \<le> maxDegree)"

definition validNodeCount :: "int list \<Rightarrow> bool" where
  "validNodeCount nodeTuple = (1 \<le> length nodeTuple \<and> length nodeTuple \<le> 11)"

definition validColoring :: "int list \<Rightarrow> bool" where
  "validColoring nodeTuple =
     (nodeTuple \<noteq> [] \<and> nodeTuple ! 0 = 0 \<and>
      list_all (\<lambda>i. nodeTuple ! i = nodeTuple ! (i - 1) \<or> nodeTuple ! i = nodeTuple ! (i - 1) + 1)
        [1..<length nodeTuple])"

fun violated :: "error_kind \<Rightarrow> int list \<Rightarrow> int \<Rightarrow> int \<Rightarrow> bool" where
  "violated InvalidDegreeBounds t mx mn = (\<not> validDegreeBounds mx mn)"
| "violated InvalidNodeCount t mx mn = (\<not> validNodeCount t)"
| "violated InvalidColoring t mx mn = (\<not> validColoring t)"

definition validInput :: "int list \<Rightarrow> int \<Rightarrow> int \<Rightarrow> bool" where
  "validInput t mx mn = (validDegreeBounds mx mn \<and> validNodeCount t \<and> validColoring t)"

text \<open>
  The inputs that the C types of the binding hold without wrapping: both degrees in the
  range of \<open>int\<close>, and a tuple size in the range of \<open>unsigned int\<close>.
\<close>

definition fitsCTypes :: "int list \<Rightarrow> int \<Rightarrow> int \<Rightarrow> bool" where
  "fitsCTypes t mx mn =
     (- (2 ^ 31) \<le> mx \<and> mx < 2 ^ 31 \<and> - (2 ^ 31) \<le> mn \<and> mn < 2 ^ 31 \<and> length t < 2 ^ 32)"

text \<open>The colouring rule as a recursion over the tuple, for the proofs.\<close>

fun contiguousFrom :: "int \<Rightarrow> int list \<Rightarrow> bool" where
  "contiguousFrom prev [] = True"
| "contiguousFrom prev (x # xs) = ((x = prev \<or> x = prev + 1) \<and> contiguousFrom x xs)"

section \<open>Specification: the adjacency encoding\<close>

text \<open>
  The index formula of the specification, \<open>idx(i, j) = i * n - (i\<^sup>2 + 3 i) / 2 + j - 1\<close>
  for \<open>i < j\<close>, and the number \<open>n (n - 1) / 2\<close> of bits in use.
\<close>

definition idx :: "nat \<Rightarrow> nat \<Rightarrow> nat \<Rightarrow> nat" where
  "idx i j n = i * n - (i * i + 3 * i) div 2 + j - 1"

definition triuSize :: "nat \<Rightarrow> nat" where
  "triuSize n = n * (n - 1) div 2"

text \<open>The number of pairs in the rows before row \<open>i\<close> of the strict upper triangle.\<close>

fun rowStart :: "nat \<Rightarrow> nat \<Rightarrow> nat" where
  "rowStart n 0 = 0"
| "rowStart n (Suc i) = rowStart n i + (n - 1 - i)"

text \<open>The node pairs \<open>i < j < n\<close> in row-major order.\<close>

definition nodePairs :: "nat \<Rightarrow> (nat \<times> nat) list" where
  "nodePairs n = concat (map (\<lambda>i. map (\<lambda>j. (i, j)) [i + 1..<n]) [0..<n])"

text \<open>
  The position, counted from the least significant bit, of the bit that the masks
  \<open>1 << (n (n - 1) / 2 - 1 - idx(i, j))\<close> select for the pair \<open>(i, j)\<close>.
\<close>

definition bitPos :: "nat \<Rightarrow> nat \<Rightarrow> nat \<Rightarrow> nat" where
  "bitPos i j n = triuSize n - 1 - idx i j n"

text \<open>The set bits of an adjacency value that encode an edge touching the node \<open>v\<close>.\<close>

definition incidentBits :: "triu \<Rightarrow> nat \<Rightarrow> nat \<Rightarrow> (nat \<times> nat) set" where
  "incidentBits adj n v = {(i, j). i < j \<and> j < n \<and> (i = v \<or> j = v) \<and> bit adj (bitPos i j n)}"

section \<open>Specification: colour-preserving permutations\<close>

text \<open>
  A permutation of the indices \<open>0 .. n - 1\<close>, as the list of its images, that maps
  every index to an index of the same colour.
\<close>

definition colorPreserving :: "nat list \<Rightarrow> nat list \<Rightarrow> bool" where
  "colorPreserving nds p \<longleftrightarrow>
     length p = length nds \<and> set p = {0..<length nds}
     \<and> list_all (\<lambda>i. nds ! (p ! i) = nds ! i) [0..<length nds]"

text \<open>
  The pool of a colour in the index map; a colour without an entry has the empty pool.
\<close>

definition poolOf :: "(nat \<rightharpoonup> nat list) \<Rightarrow> nat \<Rightarrow> nat list" where
  "poolOf im c = (case im c of None \<Rightarrow> [] | Some l \<Rightarrow> l)"

text \<open>
  The pools of the recursion at position \<open>k\<close>: every colour still to be placed has a
  pool, no pool repeats an index, and the pools of two colours share no index.
\<close>

definition poolsOk :: "nat list \<Rightarrow> (nat \<rightharpoonup> nat list) \<Rightarrow> nat \<Rightarrow> bool" where
  "poolsOk nds im k \<longleftrightarrow>
     (\<forall>i. k \<le> i \<and> i < length nds \<longrightarrow> im (nds ! i) \<noteq> None)
     \<and> (\<forall>c. distinct (poolOf im c))
     \<and> (\<forall>c c'. c \<noteq> c' \<longrightarrow> set (poolOf im c) \<inter> set (poolOf im c') = {})"

text \<open>
  The buffers that complete \<open>cur\<close> from position \<open>k\<close> on: each later position takes
  an index from the pool of its colour, and no index is taken twice.
\<close>

definition completions :: "nat list \<Rightarrow> nat list \<Rightarrow> (nat \<rightharpoonup> nat list) \<Rightarrow> nat \<Rightarrow> nat list set" where
  "completions nds cur im k =
     {p. length p = length nds \<and> (\<forall>i < k. p ! i = cur ! i)
         \<and> (\<forall>i. k \<le> i \<and> i < length nds \<longrightarrow> p ! i \<in> set (poolOf im (nds ! i)))
         \<and> distinct (drop k p)}"

text \<open>
  The position of the first occurrence of \<open>j\<close> in a list, and the inverse of a
  permutation given as the list of its images.
\<close>

definition positionOf :: "nat list \<Rightarrow> nat \<Rightarrow> nat" where
  "positionOf p j = length (takeWhile (\<lambda>x. x \<noteq> j) p)"

definition inversePermutation :: "nat list \<Rightarrow> nat list" where
  "inversePermutation p = map (positionOf p) [0..<length p]"

text \<open>
  The test of \<open>operator==\<close> for one permutation: every pair \<open>i < j\<close> of the first
  graph has the edge status of the image pair in the second graph.
\<close>

definition isoVia :: "Graph \<Rightarrow> Graph \<Rightarrow> nat list \<Rightarrow> bool" where
  "isoVia a b p \<longleftrightarrow>
     (\<forall>i j. i < j \<and> j < nNodes a \<longrightarrow> isEdge a i j = isEdge b (p ! i) (p ! j))"

section \<open>Specification: connectivity\<close>

text \<open>
  The edge relation that \<open>isEdge\<close> defines on the nodes \<open>0 .. n - 1\<close>, the nodes
  reachable from node 0 along it, and connectedness: every node is reachable from node 0.
\<close>

definition edgeRelation :: "Graph \<Rightarrow> (nat \<times> nat) set" where
  "edgeRelation g = {(u, v). u < nNodes g \<and> v < nNodes g \<and> isEdge g u v}"

definition reachableNodes :: "Graph \<Rightarrow> nat set" where
  "reachableNodes g = {v. (0, v) \<in> (edgeRelation g)\<^sup>*}"

definition graphConnected :: "Graph \<Rightarrow> bool" where
  "graphConnected g \<longleftrightarrow> (\<forall>v < nNodes g. v \<in> reachableNodes g)"

text \<open>
  The nodes marked in the 64-bit \<open>visited\<close> set.
\<close>

definition visitedSet :: "nat \<Rightarrow> 64 word \<Rightarrow> nat set" where
  "visitedSet n visited = {i. i < n \<and> bit visited i}"

text \<open>
  The body of the \<open>for\<close> loop of \<open>checkConnected\<close> for one candidate neighbour \<open>i\<close>.
\<close>

definition bfsStep :: "Graph \<Rightarrow> nat \<Rightarrow> nat \<Rightarrow> 64 word \<times> nat list \<Rightarrow> 64 word \<times> nat list" where
  "bfsStep g current i = (\<lambda>(visited, queue).
        if visited AND push_bit i 1 = 0 \<and> isEdge g current i
        then (visited OR push_bit i 1, queue @ [i])
        else (visited, queue))"

text \<open>
  The invariant of the \<open>while\<close> loop of \<open>checkConnected\<close>: node 0 is marked, the queue
  holds marked nodes without repetition, every marked node is reachable, the counter
  counts the marked nodes that have left the queue, and each of these has all its
  neighbours marked.
\<close>

definition bfsInv :: "Graph \<Rightarrow> 64 word \<Rightarrow> nat list \<Rightarrow> nat \<Rightarrow> bool" where
  "bfsInv g visited queue cnt \<longleftrightarrow>
     0 \<in> visitedSet (nNodes g) visited
     \<and> set queue \<subseteq> visitedSet (nNodes g) visited
     \<and> distinct queue
     \<and> visitedSet (nNodes g) visited \<subseteq> reachableNodes g
     \<and> cnt + length queue = card (visitedSet (nNodes g) visited)
     \<and> (\<forall>u \<in> visitedSet (nNodes g) visited - set queue.
           \<forall>v. v < nNodes g \<and> isEdge g u v \<longrightarrow> v \<in> visitedSet (nNodes g) visited)"

text \<open>
  Connectedness of the graph on \<open>n\<close> nodes that an edge list describes.
\<close>

definition edgeListConnected :: "nat \<Rightarrow> (nat \<times> nat) list \<Rightarrow> bool" where
  "edgeListConnected n es \<longleftrightarrow>
     (\<forall>v < n. (0, v) \<in> {(a, b). (a, b) \<in> set es \<or> (b, a) \<in> set es}\<^sup>*)"

section \<open>The index of a node pair and its bit\<close>

lemma rowStart_closed: "i \<le> n \<Longrightarrow> 2 * rowStart n i + i * i + i = 2 * i * n"
proof (induction i)
  case 0
  then show ?case by simp
next
  case (Suc i)
  then have "2 * rowStart n i + i * i + i = 2 * i * n" by simp
  moreover from Suc.prems obtain d where "n = Suc i + d" by (metis le_iff_add)
  ultimately show ?case by (simp add: algebra_simps)
qed

lemma rowStart_triuSize: "rowStart n n = triuSize n"
proof -
  have "2 * rowStart n n + n * n + n = 2 * n * n" by (rule rowStart_closed) simp
  then have "2 * rowStart n n = n * n - n" by simp
  also have "\<dots> = n * (n - 1)" by (simp add: algebra_simps)
  finally show ?thesis by (simp add: triuSize_def)
qed

lemma idx_rowStart:
  assumes "i < j" "j < n"
  shows "idx i j n = rowStart n i + (j - i - 1)"
proof -
  have c: "2 * rowStart n i + i * i + i = 2 * i * n"
    by (rule rowStart_closed) (use assms in simp)
  have e: "even (i * i + 3 * i)" by simp
  then obtain h where h: "i * i + 3 * i = 2 * h" by (elim evenE)
  from c h have "2 * rowStart n i + 2 * h = 2 * i * n + 2 * i" by simp
  then have s: "rowStart n i + h = i * n + i" by simp
  have "i + 3 \<le> 2 * n" using assms by simp
  then have "i * (i + 3) \<le> i * (2 * n)" by (rule mult_le_mono2)
  then have "2 * h \<le> 2 * (i * n)" using h by (simp add: algebra_simps)
  then have hn: "h \<le> i * n" by simp
  from s hn have k: "i * n - h + i = rowStart n i" by simp
  have "idx i j n = i * n - h + j - 1" using h by (simp add: idx_def)
  also have "\<dots> = rowStart n i + (j - i - 1)" using k assms by simp
  finally show ?thesis .
qed

lemma set_nodePairs: "set (nodePairs n) = {(i, j). i < j \<and> j < n}"
  by (force simp: nodePairs_def)

lemma map_idx_row:
  assumes "i < n"
  shows "map (\<lambda>j. idx i j n) [Suc i..<n] = [rowStart n i..<rowStart n (Suc i)]"
proof (rule nth_equalityI)
  show "length (map (\<lambda>j. idx i j n) [Suc i..<n]) = length [rowStart n i..<rowStart n (Suc i)]"
    by simp
next
  fix k assume "k < length (map (\<lambda>j. idx i j n) [Suc i..<n])"
  then have k: "k < n - 1 - i" by simp
  then have "idx i (i + 1 + k) n = rowStart n i + (i + 1 + k - i - 1)"
    by (intro idx_rowStart) simp_all
  with k show "map (\<lambda>j. idx i j n) [Suc i..<n] ! k = [rowStart n i..<rowStart n (Suc i)] ! k"
    by simp
qed

lemma concat_upt_steps:
  "(\<And>i. i < m \<Longrightarrow> f i \<le> f (Suc i)) \<Longrightarrow>
   concat (map (\<lambda>i. [f i..<f (Suc i)]) [0..<m]) = [f 0..<f m]"
proof (induction m)
  case 0
  then show ?case by simp
next
  case (Suc m)
  then have ih: "concat (map (\<lambda>i. [f i..<f (Suc i)]) [0..<m]) = [f 0..<f m]" by simp
  have "f 0 \<le> f m" using Suc.prems
  proof (induction m)
    case 0
    then show ?case by simp
  next
    case (Suc k)
    then have "f 0 \<le> f k" by simp
    also have "f k \<le> f (Suc k)" using Suc.prems by simp
    finally show ?case .
  qed
  moreover have "f m \<le> f (Suc m)" using Suc.prems by simp
  ultimately have "[f 0..<f m] @ [f m..<f (Suc m)] = [f 0..<f (Suc m)]"
    by (metis le_Suc_ex upt_add_eq_append)
  with ih show ?case by simp
qed

lemma map_idx_nodePairs: "map (\<lambda>(i, j). idx i j n) (nodePairs n) = [0..<triuSize n]"
proof -
  have "map (\<lambda>(i, j). idx i j n) (nodePairs n)
        = concat (map (\<lambda>i. map (\<lambda>j. idx i j n) [Suc i..<n]) [0..<n])"
    by (simp add: nodePairs_def map_concat comp_def)
  also have "\<dots> = concat (map (\<lambda>i. [rowStart n i..<rowStart n (Suc i)]) [0..<n])"
    by (rule arg_cong [where f = concat], rule map_cong)
      (simp_all add: map_idx_row del: rowStart.simps)
  also have "\<dots> = [rowStart n 0..<rowStart n n]"
    by (rule concat_upt_steps) simp
  finally show ?thesis by (simp add: rowStart_triuSize)
qed

lemma distinct_nodePairs: "distinct (nodePairs n)"
proof -
  have "distinct (map (\<lambda>(i, j). idx i j n) (nodePairs n))"
    by (simp add: map_idx_nodePairs)
  then show ?thesis by (simp add: distinct_map)
qed

lemma length_nodePairs: "length (nodePairs n) = triuSize n"
  using arg_cong [OF map_idx_nodePairs, where f = length] by simp

lemma idx_less:
  assumes "i < j" "j < n"
  shows "idx i j n < triuSize n"
proof -
  from assms have "(i, j) \<in> set (nodePairs n)" by (simp add: set_nodePairs)
  then have "idx i j n \<in> set (map (\<lambda>(i, j). idx i j n) (nodePairs n))"
    by force
  then show ?thesis by (simp add: map_idx_nodePairs)
qed

lemma idx_inj:
  assumes "i < j" "j < n" "i' < j'" "j' < n" "idx i j n = idx i' j' n"
  shows "i = i' \<and> j = j'"
proof -
  have "distinct (map (\<lambda>(i, j). idx i j n) (nodePairs n))"
    by (simp add: map_idx_nodePairs)
  then have "inj_on (\<lambda>(i, j). idx i j n) (set (nodePairs n))"
    by (simp add: distinct_map)
  moreover have "(\<lambda>(i, j). idx i j n) (i, j) = (\<lambda>(i, j). idx i j n) (i', j')"
    using assms(5) by simp
  moreover have "(i, j) \<in> set (nodePairs n)" "(i', j') \<in> set (nodePairs n)"
    using assms by (simp_all add: set_nodePairs)
  ultimately have "(i, j) = (i', j')" by (rule inj_onD)
  then show ?thesis by simp
qed

lemma nodePairs_nth_idx:
  assumes "i < j" "j < n"
  shows "nodePairs n ! idx i j n = (i, j)"
proof -
  from assms have "(i, j) \<in> set (nodePairs n)" by (simp add: set_nodePairs)
  then obtain k where k: "k < length (nodePairs n)" "nodePairs n ! k = (i, j)"
    by (auto simp: in_set_conv_nth)
  then have "map (\<lambda>(i, j). idx i j n) (nodePairs n) ! k = idx i j n" by simp
  with k(1) have "idx i j n = k" by (simp add: map_idx_nodePairs length_nodePairs)
  with k(2) show ?thesis by simp
qed

lemma word_of_nat_div2:
  "Y < 2 ^ 32 \<Longrightarrow> (of_nat Y :: 32 word) div 2 = of_nat (Y div 2)"
proof -
  assume y: "Y < 2 ^ 32"
  have "(of_nat Y :: 32 word) div 2 = of_nat (unat (of_nat Y :: 32 word) div unat (2 :: 32 word))"
    by (rule word_arith_nat_div)
  also have "unat (of_nat Y :: 32 word) = Y" using y by (simp add: unat_of_nat)
  finally show ?thesis by simp
qed

lemma upperTriuIndex_lt:
  assumes "i < j" "j < n" "n < 2 ^ 15"
  shows "upperTriuIndex i j n = idx i j n"
proof -
  let ?H = "(i * i + 3 * i) div 2"
  have b1: "i * i + 3 * i < 2 ^ 32"
  proof -
    have "i < 2 ^ 15" using assms by simp
    then have "i * i \<le> 2 ^ 15 * 2 ^ 15" by (intro mult_mono) simp_all
    moreover have "3 * i < 2 ^ 17" using \<open>i < 2 ^ 15\<close> by simp
    ultimately show ?thesis by simp
  qed
  have hn: "?H \<le> i * n"
  proof -
    have "i + 3 \<le> 2 * n" using assms by simp
    then have "i * (i + 3) \<le> i * (2 * n)" by (rule mult_le_mono2)
    then show ?thesis by (simp add: algebra_simps)
  qed
  have pos: "1 \<le> i * n - ?H + j" using assms by simp
  have "(of_nat i :: 32 word) * of_nat n - (of_nat i * of_nat i + 3 * of_nat i) div 2 + of_nat j - 1
        = of_nat (i * n) - of_nat (i * i + 3 * i) div 2 + of_nat j - 1"
    by simp
  also have "\<dots> = of_nat (i * n) - of_nat ?H + of_nat j - 1"
    using b1 by (simp only: word_of_nat_div2)
  also have "\<dots> = of_nat (i * n - ?H + j - 1)"
    using hn pos by (simp add: of_nat_diff)
  finally have w: "(of_nat i :: 32 word) * of_nat n - (of_nat i * of_nat i + 3 * of_nat i) div 2 + of_nat j - 1
        = of_nat (idx i j n)" by (simp add: idx_def)
  have "idx i j n < triuSize n" using assms by (intro idx_less)
  also have "triuSize n \<le> n * n"
    unfolding triuSize_def by (rule order_trans [OF div_le_dividend]) simp
  also have "n * n \<le> 2 ^ 15 * 2 ^ 15" using assms by (intro mult_mono) simp_all
  finally have "idx i j n < 2 ^ 32" by simp
  then have "unat (of_nat (idx i j n) :: 32 word) = idx i j n"
    by (simp add: unat_of_nat)
  with w show ?thesis using assms by (simp add: upperTriuIndex_def Let_def)
qed

lemma bit_exp_triu: "bit (2 ^ k :: triu) m \<longleftrightarrow> m = k \<and> k < 64"
  by (auto simp: bit_exp_iff)

lemma and_exp_ne0: "(w AND (2 ^ k :: triu) \<noteq> 0) \<longleftrightarrow> bit w k"
proof
  assume "w AND 2 ^ k \<noteq> 0"
  then obtain m where "bit (w AND 2 ^ k) m"
    by (auto simp: bit_eq_iff)
  then show "bit w k" by (auto simp: bit_and_iff bit_exp_triu)
next
  assume b: "bit w k"
  then have "k < 64" by (auto dest: bit_imp_le_length)
  with b have "bit (w AND 2 ^ k) k" by (simp add: bit_and_iff bit_exp_triu)
  then show "w AND 2 ^ k \<noteq> 0" by auto
qed

lemma and_exp_eq0: "(w AND (2 ^ k :: triu) = 0) \<longleftrightarrow> \<not> bit w k"
  using and_exp_ne0 [of w k] by blast

lemma popcountll_card: "popcountll w = card {k. bit w k}"
proof -
  have "{k. bit w k} = {k \<in> set [0..<64]. bit w k}"
    by (auto dest: bit_imp_le_length)
  moreover have "length (filter (bit w) [0..<64]) = card {k \<in> set [0..<64]. bit w k}"
    by (simp add: distinct_length_filter Int_def conj_commute del: set_upt)
  ultimately show ?thesis by (simp add: popcountll_def)
qed

lemma triuSize_pos: "2 \<le> n \<Longrightarrow> 0 < triuSize n"
proof -
  assume "2 \<le> n"
  then have "2 * 1 \<le> n * (n - 1)" by (intro mult_mono) simp_all
  then show ?thesis by (simp add: triuSize_def)
qed

lemma triuSize_le_55: "n \<le> 11 \<Longrightarrow> triuSize n \<le> 55"
proof -
  assume "n \<le> 11"
  then have "n * (n - 1) \<le> 11 * 10" by (intro mult_mono) simp_all
  then show ?thesis by (simp add: triuSize_def)
qed

lemma length_adjTriuMasks: "2 \<le> n \<Longrightarrow> length (adjTriuMasks n) = triuSize n"
  using triuSize_pos [of n] by (simp add: adjTriuMasks_def triuSize_def)

lemma nth_adjTriuMasks:
  "c < triuSize n \<Longrightarrow> adjTriuMasks n ! c = 2 ^ (triuSize n - 1 - c)"
  by (simp add: adjTriuMasks_def triuSize_def del: upt_Suc)

lemma bitPos_less:
  assumes "i < j" "j < n"
  shows "bitPos i j n < triuSize n"
  using idx_less [OF assms] by (simp add: bitPos_def)

lemma bitPos_inj:
  assumes "i < j" "j < n" "i' < j'" "j' < n" "bitPos i j n = bitPos i' j' n"
  shows "i = i' \<and> j = j'"
proof -
  from idx_less [OF assms(1,2)] idx_less [OF assms(3,4)] assms(5)
  have "idx i j n = idx i' j' n" by (simp add: bitPos_def)
  with assms show ?thesis by (intro idx_inj)
qed

lemma isEdge_bit:
  assumes "nNodes g = n" "adjacencyTriuMasks g = adjTriuMasks n" "n < 2 ^ 15" "i < j" "j < n"
  shows "isEdge g i j \<longleftrightarrow> bit (adjacencyTriu g) (bitPos i j n)"
proof -
  have u: "upperTriuIndex i j n = idx i j n" using assms by (intro upperTriuIndex_lt)
  have l: "idx i j n < triuSize n" using assms by (intro idx_less)
  from assms u l show ?thesis
    by (simp add: isEdge_def nth_adjTriuMasks and_exp_ne0 bitPos_def)
qed

lemma upperTriuIndex_sym: "upperTriuIndex i j n = upperTriuIndex j i n"
  by (simp add: upperTriuIndex_def Let_def)

lemma isEdge_sym: "isEdge g i j = isEdge g j i"
  by (auto simp: isEdge_def upperTriuIndex_sym [of i j])

lemma bit_fold_or:
  "bit (fold (\<lambda>u r. r OR (2 ^ f u :: triu)) xs r0) b
     \<longleftrightarrow> bit r0 b \<or> (\<exists>u \<in> set xs. b = f u \<and> b < 64)"
  by (induction xs arbitrary: r0) (auto simp: bit_or_iff bit_exp_triu)

lemma bit_calculateDegreeFilter:
  assumes "k < n" "n < 2 ^ 15"
  shows "bit (calculateDegreeFilter n ! k) b
     \<longleftrightarrow> b < 64 \<and> (\<exists>u < n. u \<noteq> k \<and> b = bitPos (min u k) (max u k) n)"
proof -
  have lo: "\<And>u. u < k \<Longrightarrow> upperTriuIndex u k n = idx u k n"
    using assms by (intro upperTriuIndex_lt) simp_all
  have hi: "\<And>v. k < v \<Longrightarrow> v < n \<Longrightarrow> upperTriuIndex k v n = idx k v n"
    using assms by (intro upperTriuIndex_lt) simp_all
  have "bit (calculateDegreeFilter n ! k) b
     \<longleftrightarrow> (\<exists>v \<in> {k + 1..<n}. b = triuSize n - 1 - upperTriuIndex k v n \<and> b < 64)
        \<or> (\<exists>u \<in> {0..<k}. b = triuSize n - 1 - upperTriuIndex u k n \<and> b < 64)"
    using assms(1)
    by (auto simp add: calculateDegreeFilter_def Let_def bit_fold_or triuSize_def
        simp del: upt_Suc)
  also have "\<dots> \<longleftrightarrow> b < 64 \<and> (\<exists>u < n. u \<noteq> k \<and> b = bitPos (min u k) (max u k) n)"
  proof
    assume "(\<exists>v \<in> {k + 1..<n}. b = triuSize n - 1 - upperTriuIndex k v n \<and> b < 64)
        \<or> (\<exists>u \<in> {0..<k}. b = triuSize n - 1 - upperTriuIndex u k n \<and> b < 64)"
    then show "b < 64 \<and> (\<exists>u < n. u \<noteq> k \<and> b = bitPos (min u k) (max u k) n)"
    proof
      assume "\<exists>v \<in> {k + 1..<n}. b = triuSize n - 1 - upperTriuIndex k v n \<and> b < 64"
      then obtain v where v0: "v \<in> {k + 1..<n}"
        and v1: "b = triuSize n - 1 - upperTriuIndex k v n" "b < 64"
        by blast
      from v0 v1 have v: "k < v" "v < n" "b = triuSize n - 1 - upperTriuIndex k v n" "b < 64"
        by simp_all
      then have "b = bitPos (min v k) (max v k) n"
        by (simp add: hi bitPos_def min_def max_def)
      moreover have "v < n" "v \<noteq> k" using v by simp_all
      ultimately show ?thesis using v(4) by blast
    next
      assume "\<exists>u \<in> {0..<k}. b = triuSize n - 1 - upperTriuIndex u k n \<and> b < 64"
      then obtain u where u0: "u \<in> {0..<k}"
        and u1: "b = triuSize n - 1 - upperTriuIndex u k n" "b < 64"
        by blast
      from u0 u1 have u: "u < k" "b = triuSize n - 1 - upperTriuIndex u k n" "b < 64"
        by simp_all
      then have "b = bitPos (min u k) (max u k) n"
        by (simp add: lo bitPos_def min_def max_def)
      moreover have "u < n" "u \<noteq> k" using u assms(1) by simp_all
      ultimately show ?thesis using u(3) by blast
    qed
  next
    assume a: "b < 64 \<and> (\<exists>u < n. u \<noteq> k \<and> b = bitPos (min u k) (max u k) n)"
    then obtain u where u: "u < n" "u \<noteq> k" "b = bitPos (min u k) (max u k) n" by auto
    show "(\<exists>v \<in> {k + 1..<n}. b = triuSize n - 1 - upperTriuIndex k v n \<and> b < 64)
        \<or> (\<exists>u \<in> {0..<k}. b = triuSize n - 1 - upperTriuIndex u k n \<and> b < 64)"
    proof (cases "u < k")
      case True
      with u a have "u \<in> {0..<k} \<and> b = triuSize n - 1 - upperTriuIndex u k n \<and> b < 64"
        by (simp add: lo bitPos_def min_def max_def)
      then show ?thesis by blast
    next
      case False
      with u have "k < u" by simp
      with u a have "u \<in> {k + 1..<n} \<and> b = triuSize n - 1 - upperTriuIndex k u n \<and> b < 64"
        by (simp add: hi bitPos_def min_def max_def)
      then show ?thesis by blast
    qed
  qed
  finally show ?thesis .
qed

lemma getEdges_filter:
  "getEdges g = filter (\<lambda>(i, j). isEdge g i j) (nodePairs (nNodes g))"
  by (simp add: getEdges_def nodePairs_def filter_concat filter_map comp_def)

lemma distinct_getEdges: "distinct (getEdges g)"
  by (simp add: getEdges_filter distinct_nodePairs)

lemma set_getEdges:
  assumes "nNodes g = n" "adjacencyTriuMasks g = adjTriuMasks n" "n < 2 ^ 15"
  shows "set (getEdges g) = {(i, j). i < j \<and> j < n \<and> bit (adjacencyTriu g) (bitPos i j n)}"
  using assms by (auto simp: getEdges_filter set_nodePairs isEdge_bit)

lemma finite_incidentBits: "finite (incidentBits adj n v)"
proof -
  have "incidentBits adj n v \<subseteq> set (nodePairs n)"
    by (auto simp: incidentBits_def set_nodePairs)
  then show ?thesis by (rule finite_subset) simp
qed

lemma popcountll_degreeFilter:
  assumes "v < n" "n < 2 ^ 15"
  shows "popcountll (adj AND calculateDegreeFilter n ! v) = card (incidentBits adj n v)"
proof -
  let ?f = "\<lambda>(i, j). bitPos i j n"
  have inj: "inj_on ?f (incidentBits adj n v)"
    by (auto simp: inj_on_def incidentBits_def dest: bitPos_inj)
  have img: "?f ` incidentBits adj n v = {b. bit (adj AND calculateDegreeFilter n ! v) b}"
  proof (rule set_eqI, rule iffI)
    fix b assume "b \<in> ?f ` incidentBits adj n v"
    then obtain i j where ij: "i < j" "j < n" "i = v \<or> j = v" "bit adj (bitPos i j n)"
      and b: "b = bitPos i j n"
      by (auto simp: incidentBits_def)
    from ij(4) have b64: "bitPos i j n < 64" by (auto dest: bit_imp_le_length)
    define u where "u = (if i = v then j else i)"
    have "u < n" "u \<noteq> v" "bitPos i j n = bitPos (min u v) (max u v) n"
      using ij by (auto simp: u_def min_def max_def)
    then have "bit (calculateDegreeFilter n ! v) (bitPos i j n)"
      using b64 assms by (subst bit_calculateDegreeFilter) auto
    with ij(4) b show "b \<in> {b. bit (adj AND calculateDegreeFilter n ! v) b}"
      by (simp add: bit_and_iff)
  next
    fix b assume "b \<in> {b. bit (adj AND calculateDegreeFilter n ! v) b}"
    then have a: "bit adj b" and d: "bit (calculateDegreeFilter n ! v) b"
      by (simp_all add: bit_and_iff)
    from d obtain u where u: "u < n" "u \<noteq> v" "b = bitPos (min u v) (max u v) n"
      using assms by (subst (asm) bit_calculateDegreeFilter) auto
    have "(min u v, max u v) \<in> incidentBits adj n v"
      using u a assms(1) by (auto simp: incidentBits_def min_def max_def)
    then have "?f (min u v, max u v) \<in> ?f ` incidentBits adj n v" by (rule imageI)
    with u(3) show "b \<in> ?f ` incidentBits adj n v" by simp
  qed
  have "popcountll (adj AND calculateDegreeFilter n ! v)
        = card {b. bit (adj AND calculateDegreeFilter n ! v) b}"
    by (rule popcountll_card)
  also have "\<dots> = card (?f ` incidentBits adj n v)" by (simp only: img)
  also have "\<dots> = card (incidentBits adj n v)" using inj by (rule card_image)
  finally show ?thesis .
qed

lemma incident_getEdges:
  assumes "nNodes g = n" "adjacencyTriuMasks g = adjTriuMasks n" "n < 2 ^ 15"
  shows "length (filter (\<lambda>(i, j). i = v \<or> j = v) (getEdges g))
         = card (incidentBits (adjacencyTriu g) n v)"
proof -
  have "distinct (filter (\<lambda>(i, j). i = v \<or> j = v) (getEdges g))"
    by (simp add: distinct_getEdges)
  then have "length (filter (\<lambda>(i, j). i = v \<or> j = v) (getEdges g))
        = card (set (filter (\<lambda>(i, j). i = v \<or> j = v) (getEdges g)))"
    by (rule distinct_card [symmetric])
  also have "set (filter (\<lambda>(i, j). i = v \<or> j = v) (getEdges g))
        = incidentBits (adjacencyTriu g) n v"
    using assms by (auto simp: set_getEdges incidentBits_def)
  finally show ?thesis .
qed

lemma those_eq_Some: "those xs = Some ys \<Longrightarrow> xs = map Some ys"
  by (induction xs arbitrary: ys) (auto split: option.splits)

lemma checkConnected_fields:
  assumes "checkConnected g = Some g'"
  shows "nNodes g' = nNodes g" "nodes g' = nodes g" "adjacencyTriu g' = adjacencyTriu g"
    "degreeFilter g' = degreeFilter g" "adjacencyTriuMasks g' = adjacencyTriuMasks g"
    "permutations g' = permutations g" "representation g' = representation g"
  using assms by (auto simp: checkConnected_def)

lemma calculateRepresentation_fields:
  "nNodes (calculateRepresentation g) = nNodes g"
  "nodes (calculateRepresentation g) = nodes g"
  "adjacencyTriu (calculateRepresentation g) = adjacencyTriu g"
  "degreeFilter (calculateRepresentation g) = degreeFilter g"
  "adjacencyTriuMasks (calculateRepresentation g) = adjacencyTriuMasks g"
  "permutations (calculateRepresentation g) = permutations g"
  "connected (calculateRepresentation g) = connected g"
  by (simp_all add: calculateRepresentation_def Let_def)

lemma newGraph_fields:
  assumes "newGraph nds adj df masks perms = Some g"
  shows "nNodes g = length nds" "nodes g = nds" "adjacencyTriu g = adj"
    "degreeFilter g = df" "adjacencyTriuMasks g = masks" "permutations g = perms"
proof -
  from assms obtain g' where c: "checkConnected (initGraph nds adj df masks perms) = Some g'"
    and g: "g = calculateRepresentation g'"
    by (auto simp: newGraph_def)
  show "nNodes g = length nds" "nodes g = nds" "adjacencyTriu g = adj"
    "degreeFilter g = df" "adjacencyTriuMasks g = masks" "permutations g = perms"
    using checkConnected_fields [OF c]
    by (simp_all add: g calculateRepresentation_fields initGraph_def)
qed

lemma set_dedupStep:
  "set (concat (map snd (dedupStep graph m))) \<subseteq> insert graph (set (concat (map snd m)))"
proof (cases "map_of m (representation graph)")
  case None
  then show ?thesis by (auto simp: dedupStep_def set_insort_key)
next
  case (Some bucket)
  then show ?thesis by (auto simp: dedupStep_def split: if_splits)
qed

lemma set_fold_dedupStep:
  "set (concat (map snd (fold dedupStep gs m))) \<subseteq> set gs \<union> set (concat (map snd m))"
proof (induction gs arbitrary: m)
  case Nil
  then show ?case by simp
next
  case (Cons g gs)
  have "set (concat (map snd (fold dedupStep gs (dedupStep g m))))
        \<subseteq> set gs \<union> set (concat (map snd (dedupStep g m)))"
    by (rule Cons.IH)
  also have "\<dots> \<subseteq> set gs \<union> insert g (set (concat (map snd m)))"
    using set_dedupStep [of g m] by blast
  finally show ?case by auto
qed

lemma generateEdges_results:
  assumes "generateEdges nds maxDegree minDegree = Some r" "es \<in> set r"
  shows "2 \<le> length nds \<and> length nds \<le> 11 \<and>
         (\<exists>t perms g. newGraph nds t (calculateDegreeFilter (length nds))
                         (adjTriuMasks (length nds)) perms = Some g
                       \<and> connected g \<and> es = getEdges g)"
proof -
  let ?n = "length nds"
  from assms(1) have n: "2 \<le> ?n" "?n \<le> 11"
    by (auto simp: generateEdges_def Let_def split: if_splits)
  from assms(1) n obtain trius perms allGraphs where
    a: "those (map (\<lambda>t. newGraph nds t (calculateDegreeFilter ?n) (adjTriuMasks ?n) perms) trius)
          = Some allGraphs"
    and r: "r = map getEdges (concat (map snd (fold dedupStep (filter connected allGraphs) [])))"
    by (auto simp: generateEdges_def Let_def split: if_splits option.splits)
  from assms(2) r obtain g where
    g: "g \<in> set (concat (map snd (fold dedupStep (filter connected allGraphs) [])))"
    and es: "es = getEdges g"
    by auto
  from g set_fold_dedupStep [of "filter connected allGraphs" "[]"]
  have gc: "g \<in> set allGraphs" "connected g" by auto
  from a have "map (\<lambda>t. newGraph nds t (calculateDegreeFilter ?n) (adjTriuMasks ?n) perms) trius
        = map Some allGraphs"
    by (rule those_eq_Some)
  then have "Some g \<in> set (map (\<lambda>t. newGraph nds t (calculateDegreeFilter ?n) (adjTriuMasks ?n) perms) trius)"
    using gc(1) by simp
  then obtain t where "newGraph nds t (calculateDegreeFilter ?n) (adjTriuMasks ?n) perms = Some g"
    by auto
  with gc(2) es n show ?thesis by blast
qed

text \<open>
  Claim C2, as amended. For \<open>2 \<le> n \<le> 11\<close> and a node pair \<open>i < j < n\<close>,
  \<open>upperTriuIndex\<close> computes \<open>idx(i, j)\<close> without wrapping, and the bit of the edge
  \<open>(i, j)\<close> is the bit at position \<open>n (n - 1) / 2 - 1 - idx(i, j)\<close>, that is the
  \<open>idx(i, j)\<close>-th bit counted from the most significant of the bits in use:
  \<open>isEdge\<close> reads exactly that bit, and the degree filter of a node \<open>k\<close> has it set
  exactly when \<open>k\<close> is one of \<open>i\<close>, \<open>j\<close>.
\<close>

theorem adjacency_bit_position:
  assumes "2 \<le> n" "n \<le> 11" "i < j" "j < n"
    and "nNodes g = n" "adjacencyTriuMasks g = adjTriuMasks n"
  shows "upperTriuIndex i j n = idx i j n
       \<and> (isEdge g i j \<longleftrightarrow> bit (adjacencyTriu g) (triuSize n - 1 - idx i j n))
       \<and> (\<forall>k < n. bit (calculateDegreeFilter n ! k) (triuSize n - 1 - idx i j n)
                    \<longleftrightarrow> k = i \<or> k = j)"
proof (intro conjI allI impI)
  have n15: "n < 2 ^ 15" using assms(2) by simp
  show "upperTriuIndex i j n = idx i j n"
    using assms(3,4) n15 by (rule upperTriuIndex_lt)
  show "isEdge g i j \<longleftrightarrow> bit (adjacencyTriu g) (triuSize n - 1 - idx i j n)"
    using isEdge_bit [OF assms(5,6) n15 assms(3,4)] by (simp add: bitPos_def)
  fix k assume k: "k < n"
  have b64: "bitPos i j n < 64"
    using bitPos_less [OF assms(3,4)] triuSize_le_55 [OF assms(2)] by simp
  have "bit (calculateDegreeFilter n ! k) (bitPos i j n) \<longleftrightarrow> k = i \<or> k = j"
  proof
    assume "bit (calculateDegreeFilter n ! k) (bitPos i j n)"
    then obtain u where u: "u < n" "u \<noteq> k" "bitPos i j n = bitPos (min u k) (max u k) n"
      using k n15 by (subst (asm) bit_calculateDegreeFilter) auto
    have "i = min u k \<and> j = max u k"
      using assms(3,4) u k by (intro bitPos_inj [of i j n]) (auto simp: min_def max_def)
    then show "k = i \<or> k = j" by (auto simp: min_def max_def split: if_splits)
  next
    assume kk: "k = i \<or> k = j"
    define u where "u = (if k = i then j else i)"
    have "u < n" "u \<noteq> k" "bitPos i j n = bitPos (min u k) (max u k) n"
      using kk assms(3,4) by (auto simp: u_def min_def max_def)
    then show "bit (calculateDegreeFilter n ! k) (bitPos i j n)"
      using b64 k n15 by (subst bit_calculateDegreeFilter) auto
  qed
  then show "bit (calculateDegreeFilter n ! k) (triuSize n - 1 - idx i j n) \<longleftrightarrow> k = i \<or> k = j"
    by (simp add: bitPos_def)
qed

theorem adjacency_bit_position_witness:
  "upperTriuIndex 0 1 3 = idx 0 1 3
   \<and> isEdge (initGraph [0, 0, 0] 4 (calculateDegreeFilter 3) (adjTriuMasks 3) []) 0 1
   \<and> bit (4 :: triu) (triuSize 3 - 1 - idx 0 1 3)
   \<and> bit (calculateDegreeFilter 3 ! 0) (triuSize 3 - 1 - idx 0 1 3)
   \<and> \<not> bit (calculateDegreeFilter 3 ! 2) (triuSize 3 - 1 - idx 0 1 3)"
proof -
  let ?g = "initGraph [0, 0, 0] 4 (calculateDegreeFilter 3) (adjTriuMasks 3) []"
  have h: "(2 :: nat) \<le> 3" "(3 :: nat) \<le> 11" "(0 :: nat) < 1" "(1 :: nat) < 3"
    "nNodes ?g = 3" "adjacencyTriuMasks ?g = adjTriuMasks 3"
    by (simp_all add: initGraph_def)
  have b: "bit (4 :: triu) (triuSize 3 - 1 - idx 0 1 3)"
    by code_simp
  have a: "adjacencyTriu ?g = 4" by (simp add: initGraph_def)
  from adjacency_bit_position [OF h] a b show ?thesis by simp
qed

text \<open>
  The claim as stated fails: for \<open>n = 3\<close> the index of the pair \<open>(0, 1)\<close> is 0, the
  adjacency value 1 has bit 0 set, still \<open>isEdge\<close> denies the edge \<open>(0, 1)\<close>, and the
  degree filter of node 0 does not contain bit 0.
\<close>

theorem adjacency_bit_position_counterexample:
  "bit (1 :: triu) (idx 0 1 3)
   \<and> \<not> isEdge (initGraph [0, 0, 0] 1 (calculateDegreeFilter 3) (adjTriuMasks 3) []) 0 1
   \<and> \<not> bit (calculateDegreeFilter 3 ! 0) (idx 0 1 3)"
proof -
  have a: "bit (1 :: triu) (idx 0 1 3)" by code_simp
  have b: "\<not> isEdge (initGraph [0, 0, 0] 1 (calculateDegreeFilter 3) (adjTriuMasks 3) []) 0 1"
    by code_simp
  have c: "\<not> bit (calculateDegreeFilter 3 ! 0) (idx 0 1 3)"
    by code_simp
  show ?thesis by (rule conjI [OF a conjI [OF b c]])
qed

text \<open>
  Claim C7. For \<open>2 \<le> n \<le> 11\<close>, a node \<open>v < n\<close> and any adjacency value, the
  population count of the value masked by the degree filter of \<open>v\<close> is the number of
  set bits that encode an edge touching \<open>v\<close>, and it is the number of pairs of the edge
  list that contain \<open>v\<close>; in particular every edge list that \<open>generateEdges\<close> returns
  is the edge list of a graph whose adjacency value has these population counts.
\<close>

theorem degreeFilter_popcount:
  "(2 \<le> n \<and> n \<le> 11 \<and> v < n \<and> nNodes g = n \<and> adjacencyTriuMasks g = adjTriuMasks n \<longrightarrow>
      popcountll (adjacencyTriu g AND calculateDegreeFilter n ! v)
        = card (incidentBits (adjacencyTriu g) n v)
      \<and> popcountll (adjacencyTriu g AND calculateDegreeFilter n ! v)
        = length (filter (\<lambda>(i, j). i = v \<or> j = v) (getEdges g)))
   \<and> (generateEdges nds maxDegree minDegree = Some r \<and> es \<in> set r \<and> v < length nds \<longrightarrow>
        (\<exists>adj perms g'.
            newGraph nds adj (calculateDegreeFilter (length nds)) (adjTriuMasks (length nds)) perms
              = Some g'
            \<and> es = getEdges g'
            \<and> popcountll (adj AND calculateDegreeFilter (length nds) ! v)
                = length (filter (\<lambda>(i, j). i = v \<or> j = v) es)))"
proof (intro conjI impI)
  assume a: "2 \<le> n \<and> n \<le> 11 \<and> v < n \<and> nNodes g = n \<and> adjacencyTriuMasks g = adjTriuMasks n"
  then have n15: "n < 2 ^ 15" by simp
  from a n15 show p: "popcountll (adjacencyTriu g AND calculateDegreeFilter n ! v)
        = card (incidentBits (adjacencyTriu g) n v)"
    by (intro popcountll_degreeFilter) simp_all
  from a n15 have "length (filter (\<lambda>(i, j). i = v \<or> j = v) (getEdges g))
        = card (incidentBits (adjacencyTriu g) n v)"
    by (intro incident_getEdges) simp_all
  with p show "popcountll (adjacencyTriu g AND calculateDegreeFilter n ! v)
        = length (filter (\<lambda>(i, j). i = v \<or> j = v) (getEdges g))"
    by simp
next
  assume a: "generateEdges nds maxDegree minDegree = Some r \<and> es \<in> set r \<and> v < length nds"
  let ?n = "length nds"
  from a generateEdges_results [of nds maxDegree minDegree r es]
  obtain t perms g' where n: "2 \<le> ?n" "?n \<le> 11"
    and g': "newGraph nds t (calculateDegreeFilter ?n) (adjTriuMasks ?n) perms = Some g'"
    and es: "es = getEdges g'"
    by blast
  note f = newGraph_fields [OF g']
  have n15: "?n < 2 ^ 15" using n by simp
  have "popcountll (t AND calculateDegreeFilter ?n ! v) = card (incidentBits t ?n v)"
    using a n15 by (intro popcountll_degreeFilter) simp_all
  moreover have "length (filter (\<lambda>(i, j). i = v \<or> j = v) (getEdges g'))
        = card (incidentBits (adjacencyTriu g') ?n v)"
    using f n15 by (intro incident_getEdges) simp_all
  ultimately have "popcountll (t AND calculateDegreeFilter ?n ! v)
        = length (filter (\<lambda>(i, j). i = v \<or> j = v) es)"
    using f es by simp
  with g' es show "\<exists>adj perms g'.
            newGraph nds adj (calculateDegreeFilter ?n) (adjTriuMasks ?n) perms = Some g'
            \<and> es = getEdges g'
            \<and> popcountll (adj AND calculateDegreeFilter ?n ! v)
                = length (filter (\<lambda>(i, j). i = v \<or> j = v) es)"
    by blast
qed

lemma generateEdges_two_nodes: "generateEdges [0, 0] 1 0 = Some [[(0, 1)]]"
  by code_simp

theorem degreeFilter_popcount_witness:
  "popcountll (5 AND calculateDegreeFilter 3 ! 1) = 2
   \<and> getEdges (initGraph [0, 0, 0] 5 (calculateDegreeFilter 3) (adjTriuMasks 3) [])
       = [(0, 1), (1, 2)]
   \<and> generateEdges [0, 0] 1 0 = Some [[(0, 1)]]
   \<and> (\<exists>adj perms g'.
         newGraph [0, 0] adj (calculateDegreeFilter (length [0 :: nat, 0]))
           (adjTriuMasks (length [0 :: nat, 0])) perms = Some g'
         \<and> [(0, 1)] = getEdges g'
         \<and> popcountll (adj AND calculateDegreeFilter (length [0 :: nat, 0]) ! 0)
             = length (filter (\<lambda>(i, j). i = 0 \<or> j = 0) [(0 :: nat, 1 :: nat)]))"
proof -
  let ?g = "initGraph [0, 0, 0] 5 (calculateDegreeFilter 3) (adjTriuMasks 3) []"
  have h: "2 \<le> (3 :: nat) \<and> (3 :: nat) \<le> 11 \<and> (1 :: nat) < 3 \<and> nNodes ?g = 3
            \<and> adjacencyTriuMasks ?g = adjTriuMasks 3"
    by (simp add: initGraph_def)
  have e: "getEdges ?g = [(0, 1), (1, 2)]" by code_simp
  have a: "adjacencyTriu ?g = 5" by (simp add: initGraph_def)
  have k: "generateEdges [0, 0] 1 0 = Some [[(0, 1)]] \<and> [(0, 1)] \<in> set [[(0, 1 :: nat)]]
           \<and> (0 :: nat) < length [0 :: nat, 0]"
    by (simp add: generateEdges_two_nodes)
  note t1 = degreeFilter_popcount [where n = 3 and v = 1 and g = ?g and nds = "[0, 0]"
      and maxDegree = 1 and minDegree = 0 and r = "[[(0, 1)]]" and es = "[(0, 1)]",
      THEN conjunct1, rule_format, OF h]
  note t2 = degreeFilter_popcount [where v = 0 and nds = "[0, 0]" and n = 3 and g = ?g
      and maxDegree = 1 and minDegree = 0 and r = "[[(0, 1)]]" and es = "[(0, 1)]",
      THEN conjunct2, rule_format, OF k]
  from t1 e a have p: "popcountll (5 AND calculateDegreeFilter 3 ! 1) = 2" by simp
  show ?thesis by (rule conjI [OF p conjI [OF e conjI [OF generateEdges_two_nodes t2]]])
qed

section \<open>The permutation table\<close>

lemma set_erase: "distinct xs \<Longrightarrow> i < length xs \<Longrightarrow> set (erase i xs) = set xs - {xs ! i}"
proof -
  assume d: "distinct xs" and i: "i < length xs"
  have "xs = take i xs @ xs ! i # drop (Suc i) xs" using i by (rule id_take_nth_drop)
  then have "distinct (take i xs @ xs ! i # drop (Suc i) xs)"
    and "set xs = set (take i xs @ xs ! i # drop (Suc i) xs)" using d by simp_all
  then show ?thesis by (auto simp: erase_def)
qed

lemma distinct_erase: "distinct xs \<Longrightarrow> distinct (erase i xs)"
proof -
  assume d: "distinct xs"
  have "distinct (take i xs @ drop i xs)" using d by simp
  then have "distinct (take i xs)" "distinct (drop i xs)" "set (take i xs) \<inter> set (drop i xs) = {}"
    by (simp_all only: distinct_append)
  moreover have "set (drop (Suc i) xs) \<subseteq> set (drop i xs)" by (rule set_drop_subset_set_drop) simp
  moreover have "distinct (drop (Suc i) xs)" using d by simp
  ultimately show ?thesis by (auto simp: erase_def)
qed

lemma length_erase: "i < length xs \<Longrightarrow> length (erase i xs) = length xs - 1"
  by (auto simp: erase_def)

lemma set_erase_subset: "set (erase i xs) \<subseteq> set xs"
  by (auto simp: erase_def dest: in_set_takeD in_set_dropD)

lemma poolOf_upd: "poolOf (im(c \<mapsto> l)) c' = (if c' = c then l else poolOf im c')"
  by (simp add: poolOf_def)

lemma poolsOk_step:
  assumes "poolsOk nds im k" "k < length nds" "im (nds ! k) = Some indices"
  shows "poolsOk nds (im(nds ! k \<mapsto> erase i indices)) (Suc k)"
proof -
  let ?c = "nds ! k"
  have p: "poolOf im ?c = indices" using assms(3) by (simp add: poolOf_def)
  have d: "\<And>c. distinct (poolOf im c)" using assms(1) by (simp add: poolsOk_def)
  have dj: "\<And>c c'. c \<noteq> c' \<Longrightarrow> set (poolOf im c) \<inter> set (poolOf im c') = {}"
    using assms(1) by (simp add: poolsOk_def)
  show ?thesis unfolding poolsOk_def
  proof (intro conjI allI impI)
    fix j assume "Suc k \<le> j \<and> j < length nds"
    then show "(im(?c \<mapsto> erase i indices)) (nds ! j) \<noteq> None"
      using assms(1) by (simp add: poolsOk_def)
  next
    fix c show "distinct (poolOf (im(?c \<mapsto> erase i indices)) c)"
      using d [of c] d [of ?c] p by (simp add: poolOf_upd distinct_erase)
  next
    fix c c' :: nat assume ne: "c \<noteq> c'"
    show "set (poolOf (im(?c \<mapsto> erase i indices)) c)
          \<inter> set (poolOf (im(?c \<mapsto> erase i indices)) c') = {}"
      using dj [OF ne] dj [of ?c c'] dj [of c ?c] ne p set_erase_subset [of i indices]
      by (auto simp: poolOf_upd)
  qed
qed

lemma those_map_Some:
  "(\<And>x. x \<in> set xs \<Longrightarrow> g x = Some (h x)) \<Longrightarrow> those (map g xs) = Some (map h xs)"
  by (induction xs) simp_all

lemma distinct_concat_map:
  "distinct xs \<Longrightarrow> (\<And>x. x \<in> set xs \<Longrightarrow> distinct (f x)) \<Longrightarrow>
   (\<And>x y. x \<in> set xs \<Longrightarrow> y \<in> set xs \<Longrightarrow> x \<noteq> y \<Longrightarrow> set (f x) \<inter> set (f y) = {}) \<Longrightarrow>
   distinct (concat (map f xs))"
proof (induction xs)
  case Nil
  then show ?case by simp
next
  case (Cons x xs)
  have "distinct (concat (map f xs))" using Cons by (intro Cons.IH) auto
  moreover have "distinct (f x)" using Cons.prems(2) by simp
  moreover have "set (f x) \<inter> set (concat (map f xs)) = {}"
  proof -
    have "\<And>y. y \<in> set xs \<Longrightarrow> set (f x) \<inter> set (f y) = {}"
      using Cons.prems(1,3) by (intro Cons.prems(3)) auto
    then show ?thesis by auto
  qed
  ultimately show ?case by simp
qed

lemma distinct_drop_nth_neq:
  assumes "distinct (drop k p)" "k \<le> a" "a < b" "b < length p"
  shows "p ! a \<noteq> p ! b"
proof
  assume e: "p ! a = p ! b"
  have "(drop k p) ! (a - k) = (drop k p) ! (b - k)" using assms e by simp
  moreover have "a - k < length (drop k p)" "b - k < length (drop k p)" using assms by simp_all
  ultimately have "a - k = b - k"
    using nth_eq_iff_index_eq [OF assms(1), of "a - k" "b - k"] by blast
  then show False using assms by simp
qed

lemma completions_step:
  assumes ok: "poolsOk nds im k" and k: "k < length nds" and lc: "length cur = length nds"
    and im: "im (nds ! k) = Some indices"
  shows "completions nds cur im k =
         (\<Union>i \<in> {0..<length indices}.
            completions nds (cur[k := indices ! i]) (im(nds ! k \<mapsto> erase i indices)) (Suc k))"
proof (rule set_eqI, rule iffI)
  let ?c = "nds ! k"
  have pc: "poolOf im ?c = indices" using im by (simp add: poolOf_def)
  have d: "distinct indices" using ok pc by (auto simp: poolsOk_def)
  fix p assume "p \<in> completions nds cur im k"
  then have lp: "length p = length nds" and pre: "\<And>j. j < k \<Longrightarrow> p ! j = cur ! j"
    and pool: "\<And>j. k \<le> j \<Longrightarrow> j < length nds \<Longrightarrow> p ! j \<in> set (poolOf im (nds ! j))"
    and dp: "distinct (drop k p)"
    by (auto simp: completions_def)
  from pool [of k] k pc have "p ! k \<in> set indices" by simp
  then obtain i where i: "i < length indices" "indices ! i = p ! k"
    by (auto simp: in_set_conv_nth)
  have "p \<in> completions nds (cur[k := indices ! i]) (im(?c \<mapsto> erase i indices)) (Suc k)"
    unfolding completions_def
  proof (intro CollectI conjI allI impI)
    show "length p = length nds" by (rule lp)
  next
    fix j assume "j < Suc k"
    then show "p ! j = cur[k := indices ! i] ! j"
      using pre [of j] i k lc by (cases "j = k") simp_all
  next
    fix j assume j: "Suc k \<le> j \<and> j < length nds"
    show "p ! j \<in> set (poolOf (im(?c \<mapsto> erase i indices)) (nds ! j))"
    proof (cases "nds ! j = ?c")
      case True
      have "p ! k \<noteq> p ! j" using dp j lp by (intro distinct_drop_nth_neq [of k]) simp_all
      moreover have "p ! j \<in> set indices" using pool [of j] j True pc by simp
      ultimately show ?thesis using True i d by (simp add: poolOf_upd set_erase)
    next
      case False
      then show ?thesis using pool [of j] j by (simp add: poolOf_upd)
    qed
  next
    have "drop k p = p ! k # drop (Suc k) p" using k lp by (simp add: Cons_nth_drop_Suc)
    with dp show "distinct (drop (Suc k) p)" by simp
  qed
  with i(1) show "p \<in> (\<Union>i \<in> {0..<length indices}.
            completions nds (cur[k := indices ! i]) (im(?c \<mapsto> erase i indices)) (Suc k))"
    by auto
next
  let ?c = "nds ! k"
  have pc: "poolOf im ?c = indices" using im by (simp add: poolOf_def)
  have d: "distinct indices" using ok pc by (auto simp: poolsOk_def)
  have dj: "\<And>c c'. c \<noteq> c' \<Longrightarrow> set (poolOf im c) \<inter> set (poolOf im c') = {}"
    using ok by (simp add: poolsOk_def)
  fix p assume "p \<in> (\<Union>i \<in> {0..<length indices}.
            completions nds (cur[k := indices ! i]) (im(?c \<mapsto> erase i indices)) (Suc k))"
  then obtain i where i: "i < length indices"
    and pi: "p \<in> completions nds (cur[k := indices ! i]) (im(?c \<mapsto> erase i indices)) (Suc k)"
    by auto
  from pi have lp: "length p = length nds"
    and pre: "\<And>j. j < Suc k \<Longrightarrow> p ! j = cur[k := indices ! i] ! j"
    and pool: "\<And>j. Suc k \<le> j \<Longrightarrow> j < length nds \<Longrightarrow>
                 p ! j \<in> set (poolOf (im(?c \<mapsto> erase i indices)) (nds ! j))"
    and dp: "distinct (drop (Suc k) p)"
    by (auto simp: completions_def)
  have pk: "p ! k = indices ! i" using pre [of k] k lc by simp
  show "p \<in> completions nds cur im k" unfolding completions_def
  proof (intro CollectI conjI allI impI)
    show "length p = length nds" by (rule lp)
  next
    fix j assume "j < k"
    then show "p ! j = cur ! j" using pre [of j] by simp
  next
    fix j assume j: "k \<le> j \<and> j < length nds"
    show "p ! j \<in> set (poolOf im (nds ! j))"
    proof (cases "j = k")
      case True
      then show ?thesis using pk pc i by simp
    next
      case False
      with j have "p ! j \<in> set (poolOf (im(?c \<mapsto> erase i indices)) (nds ! j))"
        by (intro pool) simp_all
      then show ?thesis using set_erase_subset [of i indices] pc
        by (auto simp: poolOf_upd split: if_splits)
    qed
  next
    have "p ! k \<notin> set (drop (Suc k) p)"
    proof
      assume "p ! k \<in> set (drop (Suc k) p)"
      then obtain m where m: "m < length (drop (Suc k) p)" "drop (Suc k) p ! m = p ! k"
        by (auto simp: in_set_conv_nth)
      define j where "j = Suc k + m"
      have j: "Suc k \<le> j" "j < length nds" "p ! j = p ! k"
        using m lp by (simp_all add: j_def)
      have mem: "p ! j \<in> set (poolOf (im(?c \<mapsto> erase i indices)) (nds ! j))"
        using j by (intro pool)
      show False
      proof (cases "nds ! j = ?c")
        case True
        with mem have "p ! j \<in> set indices - {indices ! i}"
          using d i by (simp add: poolOf_upd set_erase)
        with j(3) pk show False by simp
      next
        case False
        with mem have "p ! j \<in> set (poolOf im (nds ! j))" by (simp add: poolOf_upd)
        moreover have "p ! j \<in> set (poolOf im ?c)" using j(3) pk pc i by simp
        ultimately show False using dj [OF False] by auto
      qed
    qed
    moreover have "drop k p = p ! k # drop (Suc k) p" using k lp by (simp add: Cons_nth_drop_Suc)
    ultimately show "distinct (drop k p)" using dp by simp
  qed
qed

lemma completions_disjoint:
  assumes "distinct indices" "i < length indices" "j < length indices" "i \<noteq> j"
    "k < length nds" "length cur = length nds"
  shows "completions nds (cur[k := indices ! i]) im1 (Suc k)
         \<inter> completions nds (cur[k := indices ! j]) im2 (Suc k) = {}"
proof -
  have "indices ! i \<noteq> indices ! j" using assms by (simp add: nth_eq_iff_index_eq)
  then show ?thesis using assms(5,6) by (auto simp: completions_def)
qed

lemma completions_done:
  assumes "length cur = length nds"
  shows "completions nds cur im (length nds) = {cur}"
proof -
  have "\<And>p. length p = length nds \<Longrightarrow> (\<forall>i < length nds. p ! i = cur ! i) \<Longrightarrow> p = cur"
    using assms by (intro nth_equalityI) simp_all
  then show ?thesis using assms by (auto simp: completions_def)
qed

lemma generatePermutations_unfold:
  assumes "k < length nds" "im (nds ! k) = Some indices"
    and "\<And>i. i < length indices \<Longrightarrow>
           generatePermutations nds (cur[k := indices ! i])
             (im(nds ! k \<mapsto> erase i indices)) (Suc k) = Some (h i)"
  shows "generatePermutations nds cur im k = Some (concat (map h [0..<length indices]))"
proof -
  have "those (map (\<lambda>i. generatePermutations nds (cur[k := indices ! i])
                 (im(nds ! k \<mapsto> erase i indices)) (k + 1)) [0..<length indices])
        = Some (map h [0..<length indices])"
    by (rule those_map_Some) (simp add: assms(3))
  then show ?thesis
    using assms(1,2) by (subst generatePermutations.simps) simp
qed

lemma generatePermutations_completions:
  assumes "length cur = length nds" "k \<le> length nds" "poolsOk nds im k"
  shows "\<exists>ps. generatePermutations nds cur im k = Some ps \<and> distinct ps
              \<and> set ps = completions nds cur im k"
  using assms
proof (induction "length nds - k" arbitrary: cur im k)
  case 0
  then have k: "k = length nds" by simp
  then have "generatePermutations nds cur im k = Some [cur]"
    by (subst generatePermutations.simps) simp
  then show ?case using completions_done [OF "0.prems"(1), of im] k by simp
next
  case (Suc d)
  then have k: "k < length nds" by simp
  with Suc.prems(3) obtain indices where im: "im (nds ! k) = Some indices"
    by (auto simp: poolsOk_def)
  have pc: "poolOf im (nds ! k) = indices" using im by (simp add: poolOf_def)
  have di: "distinct indices" using Suc.prems(3) pc by (auto simp: poolsOk_def)
  let ?cur = "\<lambda>i. cur[k := indices ! i]"
  let ?im = "\<lambda>i. im(nds ! k \<mapsto> erase i indices)"
  have ih: "\<exists>ps. generatePermutations nds (?cur i) (?im i) (Suc k) = Some ps \<and> distinct ps
              \<and> set ps = completions nds (?cur i) (?im i) (Suc k)" for i
  proof (rule Suc.hyps(1))
    show "d = length nds - Suc k" using Suc.hyps(2) by simp
    show "length (?cur i) = length nds" using Suc.prems(1) by simp
    show "Suc k \<le> length nds" using k by simp
    show "poolsOk nds (?im i) (Suc k)" using Suc.prems(3) k im by (rule poolsOk_step)
  qed
  define h where "h i = the (generatePermutations nds (?cur i) (?im i) (Suc k))" for i
  have h: "generatePermutations nds (?cur i) (?im i) (Suc k) = Some (h i)
           \<and> distinct (h i) \<and> set (h i) = completions nds (?cur i) (?im i) (Suc k)" for i
  proof -
    from ih [of i] obtain ps where ps: "generatePermutations nds (?cur i) (?im i) (Suc k) = Some ps"
      "distinct ps" "set ps = completions nds (?cur i) (?im i) (Suc k)"
      by blast
    from ps(1) have "h i = ps" unfolding h_def by simp
    with ps show ?thesis by blast
  qed
  have h1: "generatePermutations nds (?cur i) (?im i) (Suc k) = Some (h i)" for i
    using h [of i] by (rule conjunct1)
  have h2: "distinct (h i)" for i
    using h [of i] by blast
  have h3: "set (h i) = completions nds (?cur i) (?im i) (Suc k)" for i
    using h [of i] by blast
  have r: "generatePermutations nds cur im k = Some (concat (map h [0..<length indices]))"
    using k im h1 by (rule generatePermutations_unfold)
  have "distinct (concat (map h [0..<length indices]))"
  proof (rule distinct_concat_map)
    show "distinct [0..<length indices]" by simp
  next
    fix i assume "i \<in> set [0..<length indices]"
    show "distinct (h i)" by (rule h2)
  next
    fix i j assume "i \<in> set [0..<length indices]" "j \<in> set [0..<length indices]" "i \<noteq> j"
    then show "set (h i) \<inter> set (h j) = {}"
      unfolding h3 using di k Suc.prems(1) by (intro completions_disjoint) simp_all
  qed
  moreover have "set (concat (map h [0..<length indices])) = completions nds cur im k"
  proof -
    have "set (concat (map h [0..<length indices])) = (\<Union>i \<in> {0..<length indices}. set (h i))"
      by simp
    also have "\<dots> = (\<Union>i \<in> {0..<length indices}.
                          completions nds (?cur i) (?im i) (Suc k))"
      by (simp only: h3)
    also have "\<dots> = completions nds cur im k"
      by (rule completions_step [OF Suc.prems(3) k Suc.prems(1) im, symmetric])
    finally show ?thesis .
  qed
  ultimately show ?case using r by simp
qed

lemma generatePermutations_length:
  assumes "length cur = length nds" "k \<le> length nds" "poolsOk nds im k"
    and "\<And>c. c \<in> set nds \<Longrightarrow>
            length (poolOf im c) = length (filter (\<lambda>i. nds ! i = c) [k..<length nds])"
    and "generatePermutations nds cur im k = Some ps"
  shows "length ps = (\<Prod>c \<in> set nds. fact (length (poolOf im c)))"
  using assms
proof (induction "length nds - k" arbitrary: cur im k ps)
  case 0
  then have k: "k = length nds" by simp
  then have "generatePermutations nds cur im k = Some [cur]"
    by (subst generatePermutations.simps) simp
  with "0.prems"(5) have "length ps = 1" by auto
  moreover have "(\<Prod>c \<in> set nds. fact (length (poolOf im c))) = (1 :: nat)"
    using "0.prems"(4) k by simp
  ultimately show ?case by simp
next
  case (Suc d)
  then have k: "k < length nds" by simp
  with Suc.prems(3) obtain indices where im: "im (nds ! k) = Some indices"
    by (auto simp: poolsOk_def)
  let ?c = "nds ! k"
  have pc: "poolOf im ?c = indices" using im by (simp add: poolOf_def)
  have cin: "?c \<in> set nds" using k by simp
  let ?cur = "\<lambda>i. cur[k := indices ! i]"
  let ?im = "\<lambda>i. im(?c \<mapsto> erase i indices)"
  let ?rest = "\<Prod>c \<in> set nds - {?c}. fact (length (poolOf im c)) :: nat"
  have split: "[k..<length nds] = k # [Suc k..<length nds]" using k by (rule upt_conv_Cons)
  have okS: "poolsOk nds (?im i) (Suc k)" for i
    using Suc.prems(3) k im by (rule poolsOk_step)
  have ex: "\<exists>ps. generatePermutations nds (?cur i) (?im i) (Suc k) = Some ps" for i
    using generatePermutations_completions [of "?cur i" nds "Suc k" "?im i"] okS k Suc.prems(1)
    by auto
  define h where "h i = the (generatePermutations nds (?cur i) (?im i) (Suc k))" for i
  have h: "generatePermutations nds (?cur i) (?im i) (Suc k) = Some (h i)" for i
  proof -
    from ex [of i] obtain ps where ps: "generatePermutations nds (?cur i) (?im i) (Suc k) = Some ps"
      by blast
    then have "h i = ps" unfolding h_def by simp
    with ps show ?thesis by simp
  qed
  have len: "length (h i) = fact (length indices - 1) * ?rest" if i: "i < length indices" for i
  proof -
    have "length (h i) = (\<Prod>c \<in> set nds. fact (length (poolOf (?im i) c)))"
    proof (rule Suc.hyps(1))
      show "d = length nds - Suc k" using Suc.hyps(2) by simp
      show "length (?cur i) = length nds" using Suc.prems(1) by simp
      show "Suc k \<le> length nds" using k by simp
      show "poolsOk nds (?im i) (Suc k)" by (rule okS)
      show "generatePermutations nds (?cur i) (?im i) (Suc k) = Some (h i)" by (rule h)
    next
      fix c assume c: "c \<in> set nds"
      show "length (poolOf (?im i) c) = length (filter (\<lambda>j. nds ! j = c) [Suc k..<length nds])"
        using Suc.prems(4) [OF c] i pc
        by (auto simp: poolOf_upd split length_erase)
    qed
    also have "\<dots> = fact (length (poolOf (?im i) ?c))
                     * (\<Prod>c \<in> set nds - {?c}. fact (length (poolOf (?im i) c)))"
      using cin by (intro prod.remove) simp_all
    also have "(\<Prod>c \<in> set nds - {?c}. fact (length (poolOf (?im i) c))) = ?rest"
      by (rule prod.cong) (simp_all add: poolOf_upd)
    finally have "length (h i) = fact (length (poolOf (?im i) ?c)) * ?rest" .
    moreover have "poolOf (?im i) ?c = erase i indices" by (simp add: poolOf_def)
    ultimately show ?thesis using i by (simp add: length_erase)
  qed
  have "generatePermutations nds cur im k = Some (concat (map h [0..<length indices]))"
    using k im h by (rule generatePermutations_unfold)
  with Suc.prems(5) have "ps = concat (map h [0..<length indices])" by simp
  then have "length ps = (\<Sum>i \<leftarrow> [0..<length indices]. length (h i))"
    by (simp add: length_concat comp_def)
  also have "\<dots> = (\<Sum>i \<leftarrow> [0..<length indices]. fact (length indices - 1) * ?rest)"
    by (rule arg_cong [where f = sum_list], rule map_cong) (simp_all add: len)
  also have "\<dots> = length indices * (fact (length indices - 1) * ?rest)"
    by (simp add: sum_list_triv)
  also have "\<dots> = fact (length indices) * ?rest"
  proof (cases "length indices")
    case 0
    have "length indices = length (filter (\<lambda>i. nds ! i = ?c) [k..<length nds])"
      using Suc.prems(4) [OF cin] pc by simp
    with 0 show ?thesis by (simp add: split)
  next
    case (Suc m)
    then show ?thesis by (simp add: algebra_simps)
  qed
  also have "\<dots> = (\<Prod>c \<in> set nds. fact (length (poolOf im c)))"
    using cin pc prod.remove [of "set nds" ?c "\<lambda>c. fact (length (poolOf im c)) :: nat"]
    by simp
  finally show ?case .
qed

lemma fold_indexMap:
  "m \<le> length nds \<Longrightarrow>
   fold (\<lambda>i im. im(nds ! i \<mapsto> (case im (nds ! i) of None \<Rightarrow> [] | Some l \<Rightarrow> l) @ [i]))
     [0..<m] Map.empty
   = (\<lambda>c. if c \<in> set (take m nds) then Some (filter (\<lambda>i. nds ! i = c) [0..<m]) else None)"
proof (induction m)
  case 0
  then show ?case by simp
next
  case (Suc m)
  then have m: "m < length nds" by simp
  let ?f = "\<lambda>i im. im(nds ! i \<mapsto> (case im (nds ! i) of None \<Rightarrow> [] | Some l \<Rightarrow> l) @ [i])"
  let ?old = "\<lambda>c. if c \<in> set (take m nds) then Some (filter (\<lambda>i. nds ! i = c) [0..<m]) else None"
  have ih: "fold ?f [0..<m] Map.empty = ?old" by (rule Suc.IH) (use m in simp)
  have t: "set (take (Suc m) nds) = insert (nds ! m) (set (take m nds))"
    using m by (simp add: take_Suc_conv_app_nth)
  have e: "nds ! m \<notin> set (take m nds) \<Longrightarrow> filter (\<lambda>i. nds ! i = nds ! m) [0..<m] = []"
  proof -
    assume a: "nds ! m \<notin> set (take m nds)"
    have "\<And>i. i < m \<Longrightarrow> nds ! i \<noteq> nds ! m"
    proof
      fix i assume i: "i < m" "nds ! i = nds ! m"
      then have "take m nds ! i = nds ! m" by simp
      moreover have "i < length (take m nds)" using i m by simp
      ultimately have "nds ! m \<in> set (take m nds)" by (metis nth_mem)
      with a show False by simp
    qed
    then show ?thesis by (auto simp: filter_empty_conv)
  qed
  have "fold ?f [0..<Suc m] Map.empty = ?f m (fold ?f [0..<m] Map.empty)" by simp
  also have "\<dots> = ?f m ?old" by (simp only: ih)
  also have "\<dots> = (\<lambda>c. if c \<in> set (take (Suc m) nds)
                          then Some (filter (\<lambda>i. nds ! i = c) [0..<Suc m]) else None)"
  proof (rule ext)
    fix c
    show "?f m ?old c = (if c \<in> set (take (Suc m) nds)
                          then Some (filter (\<lambda>i. nds ! i = c) [0..<Suc m]) else None)"
    proof (cases "c = nds ! m")
      case True
      then show ?thesis using e by (simp add: t)
    next
      case False
      then show ?thesis by (simp add: t)
    qed
  qed
  finally show ?case .
qed

lemma buildIndexMap_eq:
  "buildIndexMap nds =
     (\<lambda>c. if c \<in> set nds then Some (filter (\<lambda>i. nds ! i = c) [0..<length nds]) else None)"
  unfolding buildIndexMap_def using fold_indexMap [of "length nds" nds] by simp

lemma poolOf_buildIndexMap:
  "poolOf (buildIndexMap nds) c = filter (\<lambda>i. nds ! i = c) [0..<length nds]"
proof (cases "c \<in> set nds")
  case True
  then show ?thesis by (simp add: poolOf_def buildIndexMap_eq)
next
  case False
  then have "filter (\<lambda>i. nds ! i = c) [0..<length nds] = []"
    by (auto simp: filter_empty_conv)
  with False show ?thesis by (simp add: poolOf_def buildIndexMap_eq)
qed

lemma poolsOk_buildIndexMap: "poolsOk nds (buildIndexMap nds) 0"
  unfolding poolsOk_def
proof (intro conjI allI impI)
  fix i assume "0 \<le> i \<and> i < length nds"
  then have "nds ! i \<in> set nds" by simp
  then show "buildIndexMap nds (nds ! i) \<noteq> None" by (simp add: buildIndexMap_eq)
next
  fix c show "distinct (poolOf (buildIndexMap nds) c)" by (simp add: poolOf_buildIndexMap)
next
  fix c c' :: nat assume "c \<noteq> c'"
  then show "set (poolOf (buildIndexMap nds) c) \<inter> set (poolOf (buildIndexMap nds) c') = {}"
    by (auto simp: poolOf_buildIndexMap)
qed

lemma count_list_positions:
  "count_list nds c = length (filter (\<lambda>i. nds ! i = c) [0..<length nds])"
proof -
  have "count_list nds c = length (filter ((=) c) (map ((!) nds) [0..<length nds]))"
    by (simp add: count_list_eq_length_filter map_nth)
  also have "\<dots> = length (filter (\<lambda>i. c = nds ! i) [0..<length nds])"
    by (simp add: filter_map comp_def)
  also have "(\<lambda>i. c = nds ! i) = (\<lambda>i. nds ! i = c)" by auto
  finally show ?thesis .
qed

lemma completions_buildIndexMap:
  assumes "length cur = length nds"
  shows "completions nds cur (buildIndexMap nds) 0 = {p. colorPreserving nds p}"
proof (rule set_eqI, rule iffI)
  let ?n = "length nds"
  fix p assume "p \<in> completions nds cur (buildIndexMap nds) 0"
  then have lp: "length p = ?n" and d: "distinct p"
    and m: "\<And>i. i < ?n \<Longrightarrow> p ! i < ?n \<and> nds ! (p ! i) = nds ! i"
    by (auto simp: completions_def poolOf_buildIndexMap)
  have "set p \<subseteq> {0..<?n}" using m lp by (auto simp: in_set_conv_nth)
  moreover have "card (set p) = card {0..<?n}" using d lp by (simp add: distinct_card)
  ultimately have "set p = {0..<?n}" by (intro card_subset_eq) simp_all
  with lp m show "p \<in> {p. colorPreserving nds p}"
    by (simp add: colorPreserving_def list_all_iff)
next
  let ?n = "length nds"
  fix p assume "p \<in> {p. colorPreserving nds p}"
  then have lp: "length p = ?n" and sp: "set p = {0..<?n}"
    and c: "\<And>i. i < ?n \<Longrightarrow> nds ! (p ! i) = nds ! i"
    by (simp_all add: colorPreserving_def list_all_iff)
  have "card (set p) = length p" using lp sp by simp
  then have d: "distinct p" by (rule card_distinct)
  have "\<And>i. i < ?n \<Longrightarrow> p ! i < ?n"
  proof -
    fix i assume "i < ?n"
    then have "p ! i \<in> set p" using lp by simp
    then show "p ! i < ?n" using sp by simp
  qed
  with lp d c show "p \<in> completions nds cur (buildIndexMap nds) 0"
    by (simp add: completions_def poolOf_buildIndexMap)
qed

lemma generatePermutations_table:
  "\<exists>ps. generatePermutations nds (replicate (length nds) 0) (buildIndexMap nds) 0 = Some ps
        \<and> distinct ps
        \<and> set ps = {p. colorPreserving nds p}
        \<and> length ps = (\<Prod>c \<in> set nds. fact (count_list nds c))"
proof -
  let ?cur = "replicate (length nds) (0 :: nat)"
  have l: "length ?cur = length nds" by simp
  from generatePermutations_completions [OF l _ poolsOk_buildIndexMap]
  obtain ps where ps: "generatePermutations nds ?cur (buildIndexMap nds) 0 = Some ps"
    "distinct ps" "set ps = completions nds ?cur (buildIndexMap nds) 0"
    by auto
  have "length ps = (\<Prod>c \<in> set nds. fact (length (poolOf (buildIndexMap nds) c)))"
    using l _ poolsOk_buildIndexMap _ ps(1)
    by (rule generatePermutations_length) (simp_all add: poolOf_buildIndexMap)
  also have "\<dots> = (\<Prod>c \<in> set nds. fact (count_list nds c))"
    by (simp add: poolOf_buildIndexMap count_list_positions)
  finally have "length ps = (\<Prod>c \<in> set nds. fact (count_list nds c))" .
  with ps completions_buildIndexMap [OF l] show ?thesis by auto
qed

lemma positionOf_less: "j \<in> set p \<Longrightarrow> positionOf p j < length p"
  unfolding positionOf_def by (induction p) auto

lemma nth_positionOf: "j \<in> set p \<Longrightarrow> p ! positionOf p j = j"
proof -
  assume "j \<in> set p"
  then have "positionOf p j < length p" by (rule positionOf_less)
  then have "\<not> (p ! positionOf p j \<noteq> j)"
    unfolding positionOf_def by (rule nth_length_takeWhile)
  then show ?thesis by simp
qed

lemma positionOf_nth:
  assumes "distinct p" "i < length p"
  shows "positionOf p (p ! i) = i"
proof -
  have m: "p ! i \<in> set p" using assms(2) by simp
  have "p ! positionOf p (p ! i) = p ! i" using m by (rule nth_positionOf)
  moreover have "positionOf p (p ! i) < length p" using m by (rule positionOf_less)
  ultimately show ?thesis using assms by (simp add: nth_eq_iff_index_eq)
qed

lemma colorPreserving_facts:
  assumes "colorPreserving nds p"
  shows "length p = length nds" "set p = {0..<length nds}" "distinct p"
    "\<And>i. i < length nds \<Longrightarrow> p ! i < length nds"
    "\<And>i. i < length nds \<Longrightarrow> nds ! (p ! i) = nds ! i"
proof -
  show l: "length p = length nds" and s: "set p = {0..<length nds}"
    using assms by (simp_all add: colorPreserving_def)
  have "card (set p) = length p" using l s by simp
  then show "distinct p" by (rule card_distinct)
  show "\<And>i. i < length nds \<Longrightarrow> p ! i < length nds"
  proof -
    fix i assume "i < length nds"
    then have "p ! i \<in> set p" using l by simp
    then show "p ! i < length nds" using s by simp
  qed
  show "\<And>i. i < length nds \<Longrightarrow> nds ! (p ! i) = nds ! i"
    using assms by (simp add: colorPreserving_def list_all_iff)
qed

lemma colorPreserving_identity: "colorPreserving nds [0..<length nds]"
  by (simp add: colorPreserving_def list_all_iff)

lemma inversePermutation_nth:
  assumes "colorPreserving nds p" "j < length nds"
  shows "inversePermutation p ! j < length nds" "p ! (inversePermutation p ! j) = j"
proof -
  note f = colorPreserving_facts [OF assms(1)]
  have m: "j \<in> set p" using f(2) assms(2) by simp
  have q: "inversePermutation p ! j = positionOf p j"
    using assms(2) f(1) by (simp add: inversePermutation_def)
  show "inversePermutation p ! j < length nds"
    using positionOf_less [OF m] q f(1) by simp
  show "p ! (inversePermutation p ! j) = j"
    using nth_positionOf [OF m] q by simp
qed

lemma inversePermutation_nth_nth:
  assumes "colorPreserving nds p" "i < length nds"
  shows "inversePermutation p ! (p ! i) = i"
proof -
  note f = colorPreserving_facts [OF assms(1)]
  have "p ! i < length p" using f(4) [OF assms(2)] f(1) by simp
  then have "inversePermutation p ! (p ! i) = positionOf p (p ! i)"
    by (simp add: inversePermutation_def)
  also have "\<dots> = i" using f(3) assms(2) f(1) by (intro positionOf_nth) simp_all
  finally show ?thesis .
qed

lemma colorPreserving_inverse:
  assumes "colorPreserving nds p"
  shows "colorPreserving nds (inversePermutation p)"
proof -
  note f = colorPreserving_facts [OF assms]
  let ?q = "inversePermutation p"
  have l: "length ?q = length nds" using f(1) by (simp add: inversePermutation_def)
  have "set ?q = {0..<length nds}"
  proof (rule set_eqI, rule iffI)
    fix x assume "x \<in> set ?q"
    then obtain j where "j < length ?q" "?q ! j = x" by (auto simp: in_set_conv_nth)
    then show "x \<in> {0..<length nds}" using inversePermutation_nth(1) [OF assms, of j] l by auto
  next
    fix x assume "x \<in> {0..<length nds}"
    then have x: "x < length nds" by simp
    have "?q ! (p ! x) = x" using assms x by (rule inversePermutation_nth_nth)
    moreover have "p ! x < length ?q" using f(4) [OF x] l by simp
    ultimately show "x \<in> set ?q" by (metis nth_mem)
  qed
  moreover have "list_all (\<lambda>j. nds ! (?q ! j) = nds ! j) [0..<length nds]"
    unfolding list_all_iff
  proof
    fix j assume "j \<in> set [0..<length nds]"
    then have j: "j < length nds" by simp
    have "nds ! (p ! (?q ! j)) = nds ! (?q ! j)"
      using inversePermutation_nth(1) [OF assms j] by (rule f(5))
    then show "nds ! (?q ! j) = nds ! j" using inversePermutation_nth(2) [OF assms j] by simp
  qed
  ultimately show ?thesis using l by (simp add: colorPreserving_def)
qed

lemma graphEq_iff:
  "graphEq a b \<longleftrightarrow>
     representation a = representation b \<and> (\<exists>p \<in> set (permutations a). isoVia a b p)"
proof -
  have "\<And>p. list_all (\<lambda>i. list_all (\<lambda>j. isEdge a i j = isEdge b (p ! i) (p ! j))
                 [i + 1..<nNodes a]) [0..<nNodes a] \<longleftrightarrow> isoVia a b p"
    by (auto simp: list_all_iff isoVia_def)
  then show ?thesis by (simp add: graphEq_def list_ex_iff)
qed

lemma isoVia_all_pairs:
  assumes "isoVia a b p" "i < nNodes a" "j < nNodes a" "i \<noteq> j"
  shows "isEdge a i j = isEdge b (p ! i) (p ! j)"
proof (cases "i < j")
  case True
  then show ?thesis using assms by (simp add: isoVia_def)
next
  case False
  then have "j < i" using assms(4) by simp
  then have "isEdge a j i = isEdge b (p ! j) (p ! i)" using assms by (simp add: isoVia_def)
  then show ?thesis using isEdge_sym [of a i j] isEdge_sym [of b "p ! i" "p ! j"] by simp
qed

lemma isoVia_identity: "isoVia a a [0..<nNodes a]"
  by (simp add: isoVia_def)

lemma isoVia_inverse:
  assumes "isoVia a b p" "colorPreserving nds p" "nNodes a = length nds" "nNodes b = length nds"
  shows "isoVia b a (inversePermutation p)"
  unfolding isoVia_def
proof (intro allI impI)
  let ?q = "inversePermutation p"
  fix i j assume ij: "i < j \<and> j < nNodes b"
  then have i: "i < length nds" and j: "j < length nds" using assms(4) by simp_all
  note qi = inversePermutation_nth [OF assms(2) i]
  note qj = inversePermutation_nth [OF assms(2) j]
  have ne: "?q ! i \<noteq> ?q ! j"
  proof
    assume "?q ! i = ?q ! j"
    then have "p ! (?q ! i) = p ! (?q ! j)" by simp
    then show False using qi(2) qj(2) ij by simp
  qed
  have "isEdge a (?q ! i) (?q ! j) = isEdge b (p ! (?q ! i)) (p ! (?q ! j))"
    using assms(1) qi(1) qj(1) ne assms(3) by (intro isoVia_all_pairs) simp_all
  then show "isEdge b i j = isEdge a (?q ! i) (?q ! j)" using qi(2) qj(2) by simp
qed

text \<open>
  Claim C4. For every node colouring, the call of \<open>generatePermutations\<close> made by
  \<open>generateEdges\<close> returns a table without repetition whose entries are exactly the
  permutations of \<open>0 .. n - 1\<close> that map every index to an index of the same colour;
  its length is the product, over the colours, of the factorial of the number of nodes of
  that colour.
\<close>

theorem permutation_table_exact:
  "\<exists>ps. generatePermutations nds (replicate (length nds) 0) (buildIndexMap nds) 0 = Some ps
        \<and> distinct ps
        \<and> set ps = {p. colorPreserving nds p}
        \<and> length ps = (\<Prod>c \<in> set nds. fact (count_list nds c))"
  by (rule generatePermutations_table)

lemma generatePermutations_001:
  "generatePermutations [0, 0, 1] (replicate (length [0 :: nat, 0, 1]) 0)
     (buildIndexMap [0, 0, 1]) 0 = Some [[0, 1, 2], [1, 0, 2]]"
  by code_simp

theorem permutation_table_exact_witness:
  "generatePermutations [0, 0, 1] (replicate (length [0 :: nat, 0, 1]) 0)
     (buildIndexMap [0, 0, 1]) 0 = Some [[0, 1, 2], [1, 0, 2]]
   \<and> set [[0, 1, 2], [1, 0, 2]] = {p. colorPreserving [0, 0, 1] p}
   \<and> length [[0 :: nat, 1, 2], [1, 0, 2]] = (\<Prod>c \<in> set [0 :: nat, 0, 1]. fact (count_list [0, 0, 1] c))"
proof -
  from permutation_table_exact [of "[0, 0, 1]"] obtain ps where
    ps: "generatePermutations [0, 0, 1] (replicate (length [0 :: nat, 0, 1]) 0)
           (buildIndexMap [0, 0, 1]) 0 = Some ps"
    "set ps = {p. colorPreserving [0, 0, 1] p}"
    "length ps = (\<Prod>c \<in> set [0 :: nat, 0, 1]. fact (count_list [0, 0, 1] c))"
    by blast
  have "Some ps = Some [[0, 1, 2], [1, 0, 2]]"
    by (rule trans [OF ps(1) [symmetric] generatePermutations_001])
  then have "ps = [[0, 1, 2], [1, 0, 2]]" by (rule option.inject [THEN iffD1])
  with ps generatePermutations_001 show ?thesis by blast
qed

text \<open>
  Claim C10. The permutation table contains the identity and, with every permutation,
  its inverse; therefore \<open>operator==\<close> is reflexive and symmetric on graphs that share
  the node count and the table.
\<close>

theorem permutation_table_group:
  assumes "generatePermutations nds (replicate (length nds) 0) (buildIndexMap nds) 0 = Some ps"
  shows "[0..<length nds] \<in> set ps
       \<and> (\<forall>p \<in> set ps. inversePermutation p \<in> set ps)
       \<and> (\<forall>a b. nNodes a = length nds \<and> permutations a = ps
                  \<and> nNodes b = length nds \<and> permutations b = ps
              \<longrightarrow> graphEq a a \<and> (graphEq a b \<longrightarrow> graphEq b a))"
proof -
  from generatePermutations_table [of nds] assms
  have s: "set ps = {p. colorPreserving nds p}" by auto
  have idp: "[0..<length nds] \<in> set ps" using s colorPreserving_identity by simp
  have inv: "\<forall>p \<in> set ps. inversePermutation p \<in> set ps"
    using s colorPreserving_inverse by simp
  have eq: "graphEq a a \<and> (graphEq a b \<longrightarrow> graphEq b a)"
    if c: "nNodes a = length nds \<and> permutations a = ps
           \<and> nNodes b = length nds \<and> permutations b = ps" for a b
  proof
    have "isoVia a a [0..<length nds]" using isoVia_identity [of a] c by simp
    then show "graphEq a a" using idp c by (auto simp: graphEq_iff)
  next
    show "graphEq a b \<longrightarrow> graphEq b a"
    proof
      assume "graphEq a b"
      then obtain p where r: "representation a = representation b"
        and p: "p \<in> set ps" "isoVia a b p"
        using c by (auto simp: graphEq_iff)
      have cp: "colorPreserving nds p" using p(1) s by simp
      have "isoVia b a (inversePermutation p)"
        using p(2) cp c by (intro isoVia_inverse [of a b p nds]) simp_all
      moreover have "inversePermutation p \<in> set ps" using inv p(1) by simp
      ultimately show "graphEq b a" using r c by (auto simp: graphEq_iff)
    qed
  qed
  from idp inv eq show ?thesis by blast
qed

lemma generatePermutations_00:
  "generatePermutations [0, 0] (replicate (length [0 :: nat, 0]) 0)
     (buildIndexMap [0, 0]) 0 = Some [[0, 1], [1, 0]]"
  by code_simp

theorem permutation_table_group_witness:
  "generatePermutations [0, 0] (replicate (length [0 :: nat, 0]) 0)
     (buildIndexMap [0, 0]) 0 = Some [[0, 1], [1, 0]]
   \<and> [0..<length [0 :: nat, 0]] \<in> set [[0, 1], [1, 0]]
   \<and> inversePermutation [1, 0] \<in> set [[0, 1], [1, 0]]
   \<and> graphEq (initGraph [0, 0] 1 (calculateDegreeFilter 2) (adjTriuMasks 2) [[0, 1], [1, 0]])
        (initGraph [0, 0] 1 (calculateDegreeFilter 2) (adjTriuMasks 2) [[0, 1], [1, 0]])"
proof -
  let ?ps = "[[0, 1], [1, 0 :: nat]]"
  let ?g = "initGraph [0, 0] 1 (calculateDegreeFilter 2) (adjTriuMasks 2) ?ps"
  note t = permutation_table_group [OF generatePermutations_00]
  from t have a: "[0..<length [0 :: nat, 0]] \<in> set ?ps" by (rule conjunct1)
  from t have b: "\<forall>p \<in> set ?ps. inversePermutation p \<in> set ?ps"
    by (rule conjunct2 [THEN conjunct1])
  then have b': "inversePermutation [1, 0] \<in> set ?ps" by simp
  from t have c: "\<forall>a b. nNodes a = length [0 :: nat, 0] \<and> permutations a = ?ps
                  \<and> nNodes b = length [0 :: nat, 0] \<and> permutations b = ?ps
              \<longrightarrow> graphEq a a \<and> (graphEq a b \<longrightarrow> graphEq b a)"
    by (rule conjunct2 [THEN conjunct2])
  have g: "nNodes ?g = length [0 :: nat, 0] \<and> permutations ?g = ?ps
           \<and> nNodes ?g = length [0 :: nat, 0] \<and> permutations ?g = ?ps"
    by (simp add: initGraph_def)
  from c [rule_format, OF g] have d: "graphEq ?g ?g" by (rule conjunct1)
  show ?thesis by (rule conjI [OF generatePermutations_00 conjI [OF a conjI [OF b' d]]])
qed

section \<open>The breadth-first search\<close>

lemma bfsVisit_fold: "bfsVisit g current = fold (bfsStep g current) [0..<nNodes g]"
proof -
  have "(\<lambda>i (visited, queue).
          if visited AND push_bit i 1 = 0 \<and> isEdge g current i
          then (visited OR push_bit i 1, queue @ [i])
          else (visited, queue)) = bfsStep g current"
    by (rule ext) (simp only: bfsStep_def)
  then show ?thesis by (simp only: bfsVisit_def)
qed

lemma bfsStep_fold:
  assumes "distinct xs" "\<forall>i \<in> set xs. i < 64"
  shows "snd (fold (bfsStep g u) xs (visited, queue))
           = queue @ filter (\<lambda>i. \<not> bit visited i \<and> isEdge g u i) xs
       \<and> (\<forall>b. bit (fst (fold (bfsStep g u) xs (visited, queue))) b
              \<longleftrightarrow> bit visited b \<or> (b \<in> set xs \<and> isEdge g u b))"
  using assms
proof (induction xs arbitrary: visited queue)
  case Nil
  then show ?case by simp
next
  case (Cons x xs)
  obtain v1 q1 where s1: "bfsStep g u x (visited, queue) = (v1, q1)" by fastforce
  have x64: "x < 64" using Cons.prems(2) by simp
  have v1: "\<And>b. bit v1 b \<longleftrightarrow> bit visited b \<or> (b = x \<and> isEdge g u x)"
    using s1 x64 by (auto simp: bfsStep_def and_exp_eq0 bit_or_iff bit_exp_triu split: if_splits)
  have q1: "q1 = queue @ filter (\<lambda>i. \<not> bit visited i \<and> isEdge g u i) [x]"
    using s1 by (auto simp: bfsStep_def and_exp_eq0 split: if_splits)
  have ih: "snd (fold (bfsStep g u) xs (v1, q1))
           = q1 @ filter (\<lambda>i. \<not> bit v1 i \<and> isEdge g u i) xs
       \<and> (\<forall>b. bit (fst (fold (bfsStep g u) xs (v1, q1))) b
              \<longleftrightarrow> bit v1 b \<or> (b \<in> set xs \<and> isEdge g u b))"
    using Cons.prems by (intro Cons.IH) simp_all
  have "filter (\<lambda>i. \<not> bit v1 i \<and> isEdge g u i) xs
        = filter (\<lambda>i. \<not> bit visited i \<and> isEdge g u i) xs"
  proof (rule filter_cong [OF refl])
    fix i assume "i \<in> set xs"
    then have "i \<noteq> x" using Cons.prems(1) by auto
    then show "(\<not> bit v1 i \<and> isEdge g u i) = (\<not> bit visited i \<and> isEdge g u i)"
      by (simp add: v1)
  qed
  with ih q1 have a: "snd (fold (bfsStep g u) (x # xs) (visited, queue))
           = queue @ filter (\<lambda>i. \<not> bit visited i \<and> isEdge g u i) (x # xs)"
    by (simp add: s1)
  have b: "\<forall>b. bit (fst (fold (bfsStep g u) (x # xs) (visited, queue))) b
              \<longleftrightarrow> bit visited b \<or> (b \<in> set (x # xs) \<and> isEdge g u b)"
    using ih by (auto simp: s1 v1)
  from a b show ?case by blast
qed

lemma bfsVisit_result:
  assumes "nNodes g = n" "n \<le> 64" "bfsVisit g u (visited, rest) = (visited', queue')"
  shows "queue' = rest @ filter (\<lambda>i. \<not> bit visited i \<and> isEdge g u i) [0..<n]"
    and "visitedSet n visited' = visitedSet n visited \<union> {v. v < n \<and> isEdge g u v}"
proof -
  have d: "distinct [0..<n]" "\<forall>i \<in> set [0..<n]. i < 64" using assms(2) by simp_all
  note f = bfsStep_fold [OF d, of g u visited rest]
  have e: "fold (bfsStep g u) [0..<n] (visited, rest) = (visited', queue')"
    using assms(1,3) by (simp add: bfsVisit_fold)
  show "queue' = rest @ filter (\<lambda>i. \<not> bit visited i \<and> isEdge g u i) [0..<n]"
    using f e by simp
  show "visitedSet n visited' = visitedSet n visited \<union> {v. v < n \<and> isEdge g u v}"
    using f e by (auto simp: visitedSet_def)
qed

lemma finite_visitedSet: "finite (visitedSet n visited)"
  by (simp add: visitedSet_def)

lemma card_visitedSet_le: "card (visitedSet n visited) \<le> n"
proof -
  have "visitedSet n visited \<subseteq> {0..<n}" by (auto simp: visitedSet_def)
  then have "card (visitedSet n visited) \<le> card {0..<n}" by (intro card_mono) simp_all
  then show ?thesis by simp
qed

lemma reachableNodes_less:
  assumes "0 < nNodes g" "v \<in> reachableNodes g"
  shows "v < nNodes g"
proof -
  from assms(2) have "(0, v) \<in> (edgeRelation g)\<^sup>*" by (simp add: reachableNodes_def)
  then show ?thesis
  proof (cases rule: rtranclE)
    case base
    then show ?thesis using assms(1) by simp
  next
    case (step y)
    then show ?thesis by (simp add: edgeRelation_def)
  qed
qed

lemma reachableNodes_step:
  assumes "u \<in> reachableNodes g" "u < nNodes g" "v < nNodes g" "isEdge g u v"
  shows "v \<in> reachableNodes g"
proof -
  have "(u, v) \<in> edgeRelation g" using assms by (simp add: edgeRelation_def)
  with assms(1) show ?thesis
    unfolding reachableNodes_def by (auto intro: rtrancl_into_rtrancl)
qed

lemma bfs_closed_reachable:
  assumes "0 \<in> V" "\<And>u v. u \<in> V \<Longrightarrow> v < nNodes g \<Longrightarrow> isEdge g u v \<Longrightarrow> v \<in> V"
  shows "reachableNodes g \<subseteq> V"
proof
  fix v assume "v \<in> reachableNodes g"
  then have "(0, v) \<in> (edgeRelation g)\<^sup>*" by (simp add: reachableNodes_def)
  then show "v \<in> V"
  proof (induction rule: rtrancl_induct)
    case base
    then show ?case by (rule assms(1))
  next
    case (step y z)
    then show ?case using assms(2) [of y z] by (simp add: edgeRelation_def)
  qed
qed

lemma bfsInvD:
  assumes "bfsInv g visited queue cnt" "nNodes g = n"
  shows "0 \<in> visitedSet n visited" "set queue \<subseteq> visitedSet n visited" "distinct queue"
    "visitedSet n visited \<subseteq> reachableNodes g"
    "cnt + length queue = card (visitedSet n visited)"
    "\<And>u v. u \<in> visitedSet n visited \<Longrightarrow> u \<notin> set queue \<Longrightarrow> v < n \<Longrightarrow> isEdge g u v
       \<Longrightarrow> v \<in> visitedSet n visited"
proof -
  note i = assms(1) [unfolded bfsInv_def assms(2)]
  show "0 \<in> visitedSet n visited" using i by (elim conjE)
  show "set queue \<subseteq> visitedSet n visited" using i by (elim conjE)
  show "distinct queue" using i by (elim conjE)
  show "visitedSet n visited \<subseteq> reachableNodes g" using i by (elim conjE)
  show "cnt + length queue = card (visitedSet n visited)" using i by (elim conjE)
  have c: "\<forall>u \<in> visitedSet n visited - set queue.
           \<forall>v. v < n \<and> isEdge g u v \<longrightarrow> v \<in> visitedSet n visited"
    using i by (elim conjE)
  show "\<And>u v. u \<in> visitedSet n visited \<Longrightarrow> u \<notin> set queue \<Longrightarrow> v < n \<Longrightarrow> isEdge g u v
       \<Longrightarrow> v \<in> visitedSet n visited"
    using c by blast
qed

lemma bfsInv_done:
  assumes "bfsInv g visited [] cnt"
  shows "cnt = card (reachableNodes g)"
proof -
  note d = bfsInvD [OF assms refl]
  have "reachableNodes g \<subseteq> visitedSet (nNodes g) visited"
  proof (rule bfs_closed_reachable)
    show "0 \<in> visitedSet (nNodes g) visited" by (rule d(1))
  next
    fix u v assume "u \<in> visitedSet (nNodes g) visited" "v < nNodes g" "isEdge g u v"
    then show "v \<in> visitedSet (nNodes g) visited" by (intro d(6) [of u v]) simp_all
  qed
  with d(4) have "visitedSet (nNodes g) visited = reachableNodes g" by (rule equalityI)
  with d(5) show ?thesis by simp
qed

lemma bfsInv_step:
  assumes n: "nNodes g = n" "n \<le> 64"
    and inv: "bfsInv g visited (u # rest) cnt"
    and bv: "bfsVisit g u (visited, rest) = (visited', queue')"
  shows "bfsInv g visited' queue' (cnt + 1)"
    and "2 * (n - card (visitedSet n visited')) + length queue'
         < 2 * (n - card (visitedSet n visited)) + length (u # rest)"
proof -
  let ?V = "visitedSet n visited"
  let ?V' = "visitedSet n visited'"
  note d = bfsInvD [OF inv n(1)]
  define new where "new = filter (\<lambda>i. \<not> bit visited i \<and> isEdge g u i) [0..<n]"
  have q': "queue' = rest @ new" unfolding new_def using n bv by (rule bfsVisit_result(1))
  have v': "?V' = ?V \<union> {v. v < n \<and> isEdge g u v}" using n bv by (rule bfsVisit_result(2))
  have sn: "set new = {v. v < n \<and> isEdge g u v} - ?V"
    unfolding new_def visitedSet_def by auto
  have dn: "distinct new" by (simp add: new_def)
  have V': "?V' = ?V \<union> set new" unfolding v' sn by blast
  have dj: "?V \<inter> set new = {}" unfolding sn by blast
  have "card (?V \<union> set new) = card ?V + card (set new)"
    using dj by (intro card_Un_disjoint finite_visitedSet) simp_all
  then have cV': "card ?V' = card ?V + length new"
    using dn by (simp add: V' distinct_card)
  have u1: "u \<in> ?V" using d(2) by simp
  have u2: "u \<notin> set rest" using d(3) by simp
  have u3: "set rest \<subseteq> ?V" using d(2) by simp
  have u4: "distinct rest" using d(3) by simp
  have un: "u < n" using u1 by (simp add: visitedSet_def)
  have ur: "u \<in> reachableNodes g" using u1 d(4) by blast
  have a1: "0 \<in> ?V'" using d(1) V' by blast
  have sq: "set queue' = set rest \<union> set new" by (simp add: q')
  have a2: "set queue' \<subseteq> ?V'" using u3 unfolding sq V' by blast
  have "set rest \<inter> set new = {}" using u3 dj by blast
  then have a3: "distinct queue'" using u4 dn by (simp add: q')
  have a4: "?V' \<subseteq> reachableNodes g"
  proof
    fix v assume "v \<in> ?V'"
    then have "v \<in> ?V \<or> (v < n \<and> isEdge g u v)" unfolding v' by blast
    then show "v \<in> reachableNodes g"
    proof
      assume "v \<in> ?V"
      then show ?thesis using d(4) by blast
    next
      assume "v < n \<and> isEdge g u v"
      then show ?thesis using ur un n(1) by (auto intro: reachableNodes_step [of u g v])
    qed
  qed
  have a5: "cnt + 1 + length queue' = card ?V'" using d(5) cV' by (simp add: q')
  have a6: "\<forall>w \<in> ?V' - set queue'. \<forall>v. v < n \<and> isEdge g w v \<longrightarrow> v \<in> ?V'"
  proof (intro ballI allI impI)
    fix w v assume w: "w \<in> ?V' - set queue'" and v: "v < n \<and> isEdge g w v"
    have wV: "w \<in> ?V" using w unfolding V' sq by blast
    have wr: "w \<notin> set rest" using w unfolding sq by blast
    show "v \<in> ?V'"
    proof (cases "w = u")
      case True
      then show ?thesis using v unfolding v' by blast
    next
      case False
      then have "w \<notin> set (u # rest)" using wr by simp
      then have "v \<in> ?V" using wV v by (intro d(6) [of w v]) simp_all
      then show ?thesis unfolding V' by blast
    qed
  qed
  show "bfsInv g visited' queue' (cnt + 1)"
    unfolding bfsInv_def n(1) by (intro conjI a1 a2 a3 a4 a5 a6)
  have le: "card ?V' \<le> n" by (rule card_visitedSet_le)
  show "2 * (n - card ?V') + length queue' < 2 * (n - card ?V) + length (u # rest)"
    using le cV' by (simp add: q')
qed

lemma bfsLoop_correct:
  assumes n: "nNodes g = n" "n \<le> 64"
    and inv: "bfsInv g visited queue cnt"
  shows "bfsLoop g visited queue cnt = Some (card (reachableNodes g))"
  using inv
proof (induction "2 * (n - card (visitedSet n visited)) + length queue"
    arbitrary: visited queue cnt rule: less_induct)
  case less
  show ?case
  proof (cases queue)
    case Nil
    have "cnt = card (reachableNodes g)" using less.prems unfolding Nil by (rule bfsInv_done)
    moreover have "bfsLoop g visited queue cnt = Some cnt"
      unfolding Nil by (subst bfsLoop.simps) simp
    ultimately show ?thesis by simp
  next
    case (Cons u rest)
    obtain visited' queue' where bv: "bfsVisit g u (visited, rest) = (visited', queue')"
      by fastforce
    have i: "bfsInv g visited (u # rest) cnt" using less.prems unfolding Cons .
    note s = bfsInv_step [OF n i bv]
    have "2 * (n - card (visitedSet n visited')) + length queue'
          < 2 * (n - card (visitedSet n visited)) + length queue"
      using s(2) unfolding Cons .
    then have "bfsLoop g visited' queue' (cnt + 1) = Some (card (reachableNodes g))"
      using s(1) by (rule less.hyps)
    moreover have "bfsLoop g visited queue cnt = bfsLoop g visited' queue' (cnt + 1)"
      unfolding Cons by (subst bfsLoop.simps) (simp add: bv)
    ultimately show ?thesis by simp
  qed
qed

lemma bfsInv_initial:
  assumes "0 < nNodes g"
  shows "bfsInv g 1 [0] 0"
proof -
  have v: "visitedSet (nNodes g) 1 = {0}"
    using assms by (auto simp: visitedSet_def bit_1_iff)
  have "0 \<in> reachableNodes g" by (simp add: reachableNodes_def)
  then show ?thesis unfolding bfsInv_def v by simp
qed

lemma card_reachableNodes:
  assumes "0 < nNodes g"
  shows "card (reachableNodes g) = nNodes g \<longleftrightarrow> graphConnected g"
proof -
  have sub: "reachableNodes g \<subseteq> {0..<nNodes g}"
    using reachableNodes_less [OF assms] by auto
  show ?thesis
  proof
    assume "card (reachableNodes g) = nNodes g"
    then have "card (reachableNodes g) = card {0..<nNodes g}" by simp
    with sub have "reachableNodes g = {0..<nNodes g}" by (intro card_subset_eq) simp_all
    then show "graphConnected g" by (simp add: graphConnected_def)
  next
    assume "graphConnected g"
    then have "{0..<nNodes g} \<subseteq> reachableNodes g" by (auto simp: graphConnected_def)
    with sub have "reachableNodes g = {0..<nNodes g}" by (rule equalityI)
    then show "card (reachableNodes g) = nNodes g" by simp
  qed
qed

lemma checkConnected_correct:
  assumes "0 < nNodes g" "nNodes g \<le> 64"
  shows "checkConnected g = Some (g\<lparr>connected := graphConnected g\<rparr>)"
proof -
  have "bfsLoop g 1 [0] 0 = Some (card (reachableNodes g))"
    using refl assms(2) bfsInv_initial [OF assms(1)] by (rule bfsLoop_correct)
  then show ?thesis by (simp add: checkConnected_def card_reachableNodes [OF assms(1)])
qed

lemma isEdge_fields:
  assumes "nNodes a = nNodes b" "adjacencyTriu a = adjacencyTriu b"
    "adjacencyTriuMasks a = adjacencyTriuMasks b"
  shows "isEdge a = isEdge b"
  using assms by (intro ext) (simp add: isEdge_def)

lemma graphConnected_fields:
  assumes "nNodes a = nNodes b" "adjacencyTriu a = adjacencyTriu b"
    "adjacencyTriuMasks a = adjacencyTriuMasks b"
  shows "graphConnected a = graphConnected b"
  using assms isEdge_fields [OF assms]
  by (simp add: graphConnected_def reachableNodes_def edgeRelation_def)

lemma newGraph_connected:
  assumes "0 < length nds" "length nds \<le> 64"
  shows "\<exists>g. newGraph nds adj df masks perms = Some g \<and> (connected g \<longleftrightarrow> graphConnected g)"
proof -
  let ?init = "initGraph nds adj df masks perms"
  have n0: "nNodes ?init = length nds" by (simp add: initGraph_def)
  have c: "checkConnected ?init = Some (?init\<lparr>connected := graphConnected ?init\<rparr>)"
    using assms by (intro checkConnected_correct) (simp_all add: n0)
  let ?g = "calculateRepresentation (?init\<lparr>connected := graphConnected ?init\<rparr>)"
  have g: "newGraph nds adj df masks perms = Some ?g" by (simp add: newGraph_def c)
  have c1: "connected ?g \<longleftrightarrow> graphConnected ?init"
    by (simp add: calculateRepresentation_def Let_def)
  have c2: "graphConnected ?g \<longleftrightarrow> graphConnected ?init"
    by (rule graphConnected_fields) (simp_all add: calculateRepresentation_fields)
  from c1 c2 have "connected ?g \<longleftrightarrow> graphConnected ?g" by blast
  with g show ?thesis by blast
qed

lemma isEdge_irrefl: "\<not> isEdge g u u"
  by (simp add: isEdge_def)

lemma edgeRelation_getEdges:
  "edgeRelation g = {(a, b). (a, b) \<in> set (getEdges g) \<or> (b, a) \<in> set (getEdges g)}"
proof -
  have s: "set (getEdges g) = {(i, j). i < j \<and> j < nNodes g \<and> isEdge g i j}"
    by (auto simp: getEdges_filter set_nodePairs)
  show ?thesis
  proof (rule set_eqI, rule iffI)
    fix x assume "x \<in> edgeRelation g"
    then obtain a b where x: "x = (a, b)" and ab: "a < nNodes g" "b < nNodes g" "isEdge g a b"
      by (auto simp: edgeRelation_def)
    have "a \<noteq> b" using ab(3) isEdge_irrefl [of g a] by auto
    then have "a < b \<or> b < a" by auto
    then show "x \<in> {(a, b). (a, b) \<in> set (getEdges g) \<or> (b, a) \<in> set (getEdges g)}"
      using ab isEdge_sym [of g a b] unfolding x s by auto
  next
    fix x assume "x \<in> {(a, b). (a, b) \<in> set (getEdges g) \<or> (b, a) \<in> set (getEdges g)}"
    then show "x \<in> edgeRelation g"
      using isEdge_sym unfolding s edgeRelation_def by auto
  qed
qed

lemma graphConnected_getEdges:
  "graphConnected g \<longleftrightarrow> edgeListConnected (nNodes g) (getEdges g)"
  by (simp add: graphConnected_def reachableNodes_def edgeListConnected_def
      edgeRelation_getEdges)

text \<open>
  Claim C6. The constructor returns, for every node sequence of at least one and at most
  11 nodes and every adjacency value, a graph whose connectivity flag is true exactly
  when every node is reachable from node 0 along the edges that \<open>isEdge\<close> reports; and
  every edge list that \<open>generateEdges\<close> returns describes a connected graph.
\<close>

theorem connectivity_flag:
  "(1 \<le> length nds \<and> length nds \<le> 11 \<longrightarrow>
      (\<exists>g. newGraph nds adj df masks perms = Some g \<and> (connected g \<longleftrightarrow> graphConnected g)))
   \<and> (generateEdges nds maxDegree minDegree = Some r \<and> es \<in> set r \<longrightarrow>
        edgeListConnected (length nds) es)"
proof (intro conjI impI)
  assume "1 \<le> length nds \<and> length nds \<le> 11"
  then show "\<exists>g. newGraph nds adj df masks perms = Some g \<and> (connected g \<longleftrightarrow> graphConnected g)"
    by (intro newGraph_connected) auto
next
  assume a: "generateEdges nds maxDegree minDegree = Some r \<and> es \<in> set r"
  let ?n = "length nds"
  from a generateEdges_results [of nds maxDegree minDegree r es]
  obtain t perms' g where n: "2 \<le> ?n" "?n \<le> 11"
    and g: "newGraph nds t (calculateDegreeFilter ?n) (adjTriuMasks ?n) perms' = Some g"
    and c: "connected g" and es: "es = getEdges g"
    by blast
  have "0 < ?n" "?n \<le> 64" using n by auto
  from newGraph_connected [OF this, of t "calculateDegreeFilter ?n" "adjTriuMasks ?n" perms'] g
  have "connected g \<longleftrightarrow> graphConnected g" by auto
  with c have "graphConnected g" by simp
  then have "edgeListConnected (nNodes g) (getEdges g)" by (simp add: graphConnected_getEdges)
  then show "edgeListConnected ?n es" using newGraph_fields(1) [OF g] es by simp
qed

lemma newGraph_two_nodes:
  "map_option connected (newGraph [0, 0] 1 (calculateDegreeFilter 2) (adjTriuMasks 2) [])
     = Some True"
  by code_simp

theorem connectivity_flag_witness:
  "(\<exists>g. newGraph [0, 0] 1 (calculateDegreeFilter 2) (adjTriuMasks 2) [] = Some g
        \<and> connected g \<and> graphConnected g)
   \<and> generateEdges [0, 0] 1 0 = Some [[(0, 1)]]
   \<and> edgeListConnected (length [0 :: nat, 0]) [(0, 1)]"
proof -
  have h1: "1 \<le> length [0 :: nat, 0] \<and> length [0 :: nat, 0] \<le> 11" by simp
  have h2: "generateEdges [0, 0] 1 0 = Some [[(0, 1)]] \<and> [(0, 1)] \<in> set [[(0, 1 :: nat)]]"
    by (simp add: generateEdges_two_nodes)
  note t = connectivity_flag [where nds = "[0, 0]" and adj = 1 and df = "calculateDegreeFilter 2"
      and masks = "adjTriuMasks 2" and perms = "[]" and maxDegree = 1 and minDegree = 0
      and r = "[[(0, 1)]]" and es = "[(0, 1)]"]
  from t [THEN conjunct1, rule_format, OF h1] obtain g where
    g: "newGraph [0, 0] 1 (calculateDegreeFilter 2) (adjTriuMasks 2) [] = Some g"
    and c: "connected g \<longleftrightarrow> graphConnected g"
    by blast
  from g newGraph_two_nodes have "connected g" by simp
  with c g have a: "\<exists>g. newGraph [0, 0] 1 (calculateDegreeFilter 2) (adjTriuMasks 2) [] = Some g
        \<and> connected g \<and> graphConnected g"
    by blast
  note b = t [THEN conjunct2, rule_format, OF h2]
  show ?thesis by (rule conjI [OF a conjI [OF generateEdges_two_nodes b]])
qed

section \<open>The binding validates before it enumerates\<close>

lemma contiguousFrom_index:
  "contiguousFrom prev t \<longleftrightarrow>
   (\<forall>i. 0 < i \<and> i < Suc (length t) \<longrightarrow>
       (prev # t) ! i = (prev # t) ! (i - 1) \<or> (prev # t) ! i = (prev # t) ! (i - 1) + 1)"
proof (induction t arbitrary: prev)
  case Nil
  then show ?case by simp
next
  case (Cons x xs)
  show ?case
  proof
    assume a: "contiguousFrom prev (x # xs)"
    show "\<forall>i. 0 < i \<and> i < Suc (length (x # xs)) \<longrightarrow>
       (prev # x # xs) ! i = (prev # x # xs) ! (i - 1) \<or> (prev # x # xs) ! i = (prev # x # xs) ! (i - 1) + 1"
    proof (intro allI impI)
      fix i assume i: "0 < i \<and> i < Suc (length (x # xs))"
      show "(prev # x # xs) ! i = (prev # x # xs) ! (i - 1) \<or> (prev # x # xs) ! i = (prev # x # xs) ! (i - 1) + 1"
      proof (cases "i = 1")
        case True
        with a show ?thesis by simp
      next
        case False
        with i obtain k where k: "i = Suc k" "0 < k" "k < Suc (length xs)"
          by (cases i) auto
        from a have "contiguousFrom x xs" by simp
        with Cons.IH[of x] k have "(x # xs) ! k = (x # xs) ! (k - 1) \<or> (x # xs) ! k = (x # xs) ! (k - 1) + 1"
          by blast
        with k show ?thesis by (cases k) auto
      qed
    qed
  next
    assume a: "\<forall>i. 0 < i \<and> i < Suc (length (x # xs)) \<longrightarrow>
       (prev # x # xs) ! i = (prev # x # xs) ! (i - 1) \<or> (prev # x # xs) ! i = (prev # x # xs) ! (i - 1) + 1"
    from a[rule_format, of 1] have h: "x = prev \<or> x = prev + 1" by simp
    have "\<forall>k. 0 < k \<and> k < Suc (length xs) \<longrightarrow>
       (x # xs) ! k = (x # xs) ! (k - 1) \<or> (x # xs) ! k = (x # xs) ! (k - 1) + 1"
    proof (intro allI impI)
      fix k assume k: "0 < k \<and> k < Suc (length xs)"
      with a[rule_format, of "Suc k"] show "(x # xs) ! k = (x # xs) ! (k - 1) \<or> (x # xs) ! k = (x # xs) ! (k - 1) + 1"
        by (cases k) auto
    qed
    with Cons.IH[of x] have "contiguousFrom x xs" by blast
    with h show "contiguousFrom prev (x # xs)" by simp
  qed
qed

lemma validColoring_rec:
  "validColoring (x # xs) \<longleftrightarrow> x = 0 \<and> contiguousFrom x xs"
  unfolding validColoring_def contiguousFrom_index list_all_iff
  by (auto simp: less_Suc_eq_le Suc_le_eq)

lemma contiguousFrom_bound:
  "contiguousFrom prev t \<Longrightarrow> x \<in> set t \<Longrightarrow> prev \<le> x \<and> x \<le> prev + int (length t)"
  by (induction t arbitrary: prev) fastforce+

lemma convertNodes_error_kind:
  "convertNodes t nds = Inl e \<Longrightarrow> errorKind e = InvalidColoring"
  by (induction t nds rule: convertNodes.induct) (auto simp: Let_def split: if_splits)

lemma convertNodes_contiguous:
  "nds \<noteq> [] \<Longrightarrow> contiguousFrom (int (last nds)) t \<Longrightarrow>
   int (last nds) + int (length t) < 2 ^ 63 \<Longrightarrow>
   convertNodes t nds = Inr (nds @ map nat t)"
proof (induction t arbitrary: nds)
  case Nil
  then show ?case by simp
next
  case (Cons x xs)
  from Cons.prems have x: "x = int (last nds) \<or> x = int (last nds) + 1" and c: "contiguousFrom x xs"
    by auto
  from x Cons.prems(3) have r: "0 \<le> x" "x < 2 ^ 63" by auto
  then have p: "PyLong_AsLong x = x" by (simp add: PyLong_AsLong_def)
  have l: "int (last (nds @ [nat x])) = x" using r by simp
  have "convertNodes xs (nds @ [nat x]) = Inr ((nds @ [nat x]) @ map nat xs)"
  proof (rule Cons.IH)
    show "nds @ [nat x] \<noteq> []" by simp
    show "contiguousFrom (int (last (nds @ [nat x]))) xs" using c l by simp
    show "int (last (nds @ [nat x])) + int (length xs) < 2 ^ 63"
      using l x Cons.prems(3) by auto
  qed
  then show ?case using p r x Cons.prems(1) by (auto simp: Let_def)
qed

lemma convertNodes_not_contiguous:
  "nds \<noteq> [] \<Longrightarrow> \<not> contiguousFrom (int (last nds)) t \<Longrightarrow> \<exists>e. convertNodes t nds = Inl e"
proof (induction t arbitrary: nds)
  case Nil
  then show ?case by simp
next
  case (Cons x xs)
  show ?case
  proof (cases "PyLong_AsLong x < 0")
    case True
    then show ?thesis by (simp add: Let_def)
  next
    case False
    then have p: "PyLong_AsLong x = x" "0 \<le> x"
      by (auto simp: PyLong_AsLong_def split: if_splits)
    show ?thesis
    proof (cases "x = int (last nds) \<or> x = int (last nds) + 1")
      case True
      with Cons.prems have "\<not> contiguousFrom x xs" by auto
      then have "\<not> contiguousFrom (int (last (nds @ [nat x]))) xs" using p by simp
      then have "\<exists>e. convertNodes xs (nds @ [nat x]) = Inl e"
        by (intro Cons.IH) simp_all
      then show ?thesis using p True Cons.prems(1) by (auto simp: Let_def)
    next
      case False
      then show ?thesis using p Cons.prems(1) by (auto simp: Let_def)
    qed
  qed
qed

lemma convertNodes_valid:
  assumes "validColoring t" "length t \<le> 11"
  shows "convertNodes t [] = Inr (map nat t)"
proof -
  from assms(1) have "t \<noteq> []" by (simp add: validColoring_def)
  then obtain x xs where t0: "t = x # xs" by (cases t) auto
  from assms(1) have "validColoring (x # xs)" unfolding t0 .
  then have xc: "x = 0 \<and> contiguousFrom x xs" by (rule validColoring_rec[THEN iffD1])
  then have x0: "x = 0" by (rule conjunct1)
  from xc have "contiguousFrom x xs" by (rule conjunct2)
  then have c: "contiguousFrom 0 xs" unfolding x0 .
  from t0 have t: "t = 0 # xs" unfolding x0 .
  have "convertNodes xs [0] = Inr ([0] @ map nat xs)"
    by (rule convertNodes_contiguous) (use c assms(2) t in auto)
  then show ?thesis using t by (simp add: Let_def PyLong_AsLong_def)
qed

lemma convertNodes_invalid:
  assumes "\<not> validColoring t" "t \<noteq> []"
  shows "\<exists>e. convertNodes t [] = Inl e"
proof -
  from assms obtain x xs where t: "t = x # xs" by (cases t) auto
  show ?thesis
  proof (cases "PyLong_AsLong x < 0 \<or> PyLong_AsLong x \<noteq> 0")
    case True
    then show ?thesis using t by (auto simp: Let_def)
  next
    case False
    then have x: "x = 0" by (auto simp: PyLong_AsLong_def split: if_splits)
    with assms t have "\<not> contiguousFrom (int (last [0])) xs" by (simp add: validColoring_rec)
    then have "\<exists>e. convertNodes xs [0] = Inl e"
      by (intro convertNodes_not_contiguous) simp_all
    then show ?thesis using t x by (auto simp: Let_def PyLong_AsLong_def)
  qed
qed

lemma sint_parseUnsignedInt:
  "- (2 ^ 31) \<le> x \<Longrightarrow> x < 2 ^ 31 \<Longrightarrow> sint (parseUnsignedInt x) = x"
  by (simp add: parseUnsignedInt_def sint_sbintrunc' signed_take_bit_int_eq_self)

lemma parsed_comparisons:
  assumes "fitsCTypes t mx mn"
  shows "parseUnsignedInt mx <s parseUnsignedInt mn \<longleftrightarrow> mx < mn"
    and "parseUnsignedInt mn <s 0 \<longleftrightarrow> mn < 0"
  using assms by (simp_all add: fitsCTypes_def word_sless_alt sint_parseUnsignedInt)

text \<open>
  Claim C9, as amended. For every call whose degree arguments lie in the range of a C
  \<open>int\<close> and whose tuple has fewer than \<open>2 ^ 32\<close> elements: an input that violates a
  precondition (the degree bounds, the node count or the colouring rule) makes
  \<open>generatePyEdges\<close> return an error of a kind whose precondition the input violates,
  and no result; an input that passes every check is handed to the enumeration
  (\<open>generateEdges\<close> for two or more nodes, the single empty edge list for one node).
\<close>

theorem generatePyEdges_validation:
  assumes "fitsCTypes t mx mn"
  shows "(validInput t mx mn \<longrightarrow>
      generatePyEdges t mx mn =
        (if length t > 1
         then map_option Inr (generateEdges (map nat t) (parseUnsignedInt mx) (parseUnsignedInt mn))
         else Some (Inr [[]])))
   \<and> (\<not> validInput t mx mn \<longrightarrow>
        (\<exists>e. generatePyEdges t mx mn = Some (Inl e) \<and> violated (errorKind e) t mx mn))"
proof (intro conjI impI)
  note cmp = parsed_comparisons [OF assms]
  have sz: "length t mod 2 ^ 32 = length t" using assms by (simp add: fitsCTypes_def)
  assume v: "validInput t mx mn"
  then have d: "\<not> parseUnsignedInt mx <s parseUnsignedInt mn" "\<not> parseUnsignedInt mn <s 0"
    by (auto simp: cmp validInput_def validDegreeBounds_def)
  from v have c: "convertNodes t [] = Inr (map nat t)"
    by (intro convertNodes_valid) (auto simp: validInput_def validNodeCount_def)
  from v have "length t \<noteq> 0" "\<not> length t > 11"
    by (auto simp: validInput_def validNodeCount_def)
  with d c sz show "generatePyEdges t mx mn =
        (if length t > 1
         then map_option Inr (generateEdges (map nat t) (parseUnsignedInt mx) (parseUnsignedInt mn))
         else Some (Inr [[]]))"
    by (simp add: generatePyEdges_def Let_def)
next
  note cmp = parsed_comparisons [OF assms]
  have sz: "length t mod 2 ^ 32 = length t" using assms by (simp add: fitsCTypes_def)
  assume nv: "\<not> validInput t mx mn"
  show "\<exists>e. generatePyEdges t mx mn = Some (Inl e) \<and> violated (errorKind e) t mx mn"
  proof (cases "validDegreeBounds mx mn")
    case False
    then have "parseUnsignedInt mx <s parseUnsignedInt mn \<or> parseUnsignedInt mn <s 0"
      by (auto simp: cmp validDegreeBounds_def)
    with False show ?thesis by (auto simp: generatePyEdges_def Let_def)
  next
    case d: True
    then have dd: "\<not> parseUnsignedInt mx <s parseUnsignedInt mn" "\<not> parseUnsignedInt mn <s 0"
      by (auto simp: cmp validDegreeBounds_def)
    show ?thesis
    proof (cases "validNodeCount t")
      case False
      then have "length t = 0 \<or> length t > 11" by (cases t) (auto simp: validNodeCount_def)
      with False dd sz show ?thesis by (auto simp: generatePyEdges_def Let_def)
    next
      case n: True
      with d nv have nc: "\<not> validColoring t" by (simp add: validInput_def)
      from n have ne: "t \<noteq> []" "length t \<noteq> 0" "\<not> length t > 11"
        by (auto simp: validNodeCount_def)
      from convertNodes_invalid [OF nc ne(1)] obtain e where e: "convertNodes t [] = Inl e"
        by blast
      then have "errorKind e = InvalidColoring" by (rule convertNodes_error_kind)
      with e nc dd ne sz show ?thesis by (auto simp: generatePyEdges_def Let_def)
    qed
  qed
qed

theorem generatePyEdges_validation_witness:
  "fitsCTypes [0, 0] 1 0
   \<and> validInput [0, 0] 1 0
   \<and> generatePyEdges [0, 0] 1 0
       = map_option Inr (generateEdges [0, 0] (parseUnsignedInt 1) (parseUnsignedInt 0))
   \<and> fitsCTypes [0, 2] 1 0
   \<and> \<not> validInput [0, 2] 1 0
   \<and> (\<exists>e. generatePyEdges [0, 2] 1 0 = Some (Inl e) \<and> violated (errorKind e) [0, 2] 1 0)"
proof -
  have f: "fitsCTypes [0, 0] 1 0" "fitsCTypes [0, 2] 1 0"
    by (simp_all add: fitsCTypes_def)
  have v: "validInput [0, 0] 1 0"
    by (simp add: validInput_def validDegreeBounds_def validNodeCount_def validColoring_def)
  have nv: "\<not> validInput [0, 2] 1 0"
    by (simp add: validInput_def validColoring_def)
  from f v nv generatePyEdges_validation [OF f(1)] generatePyEdges_validation [OF f(2)]
  show ?thesis by simp
qed

text \<open>
  The claim as stated fails outside that range: \<open>min_degree = 2 ^ 32\<close> exceeds
  \<open>max_degree = 5\<close>, but the format unit \<open>I\<close> reduces it to 0 and the call returns a
  result.
\<close>

theorem generatePyEdges_validation_counterexample:
  "\<not> validInput [0] 5 4294967296
   \<and> generatePyEdges [0] 5 4294967296 = Some (Inr [[]])"
proof -
  have a: "\<not> validInput [0] 5 4294967296"
    by (simp add: validInput_def validDegreeBounds_def)
  have p: "parseUnsignedInt 4294967296 = 0" "parseUnsignedInt 5 = 5"
    by (simp_all add: parseUnsignedInt_def)
  have b: "generatePyEdges [0] 5 4294967296 = Some (Inr [[]])"
    by (simp add: generatePyEdges_def p Let_def PyLong_AsLong_def word_sless_alt)
  show ?thesis by (rule conjI [OF a b])
qed

text \<open>
  Claim C8, as amended. For the node sequence \<open>[0]\<close> and degree bounds
  \<open>0 \<le> minDegree \<le> maxDegree < 2 ^ 31\<close> the operation returns exactly one result, the
  empty edge list.
\<close>

theorem generatePyEdges_single_node:
  assumes "0 \<le> minDegree" "minDegree \<le> maxDegree" "maxDegree < 2 ^ 31"
  shows "generatePyEdges [0] maxDegree minDegree = Some (Inr [[]])"
proof -
  have f: "fitsCTypes [0] maxDegree minDegree" using assms by (simp add: fitsCTypes_def)
  note cmp = parsed_comparisons [OF f]
  show ?thesis using assms
    by (simp add: generatePyEdges_def Let_def PyLong_AsLong_def cmp)
qed

theorem generatePyEdges_single_node_witness:
  "(0 :: int) \<le> 0 \<and> (0 :: int) \<le> 5 \<and> (5 :: int) < 2 ^ 31
   \<and> generatePyEdges [0] 5 0 = Some (Inr [[]])"
proof -
  have h: "(0 :: int) \<le> 0" "(0 :: int) \<le> 5" "(5 :: int) < 2 ^ 31" by simp_all
  from h generatePyEdges_single_node [OF h] show ?thesis by simp
qed

text \<open>
  The claim as stated fails for a larger bound: \<open>max_degree = 2 ^ 31\<close> is stored in an
  \<open>int\<close> as \<open>- 2 ^ 31\<close>, and the call with \<open>min_degree = 0\<close> is refused.
\<close>

theorem generatePyEdges_single_node_counterexample:
  "(0 :: int) \<le> 2147483648
   \<and> generatePyEdges [0] 2147483648 0 = Some (Inl MaxDegreeBelowMinDegree)"
proof -
  have a: "(0 :: int) \<le> 2147483648" by simp
  have p: "parseUnsignedInt 2147483648 <s parseUnsignedInt 0"
    by (simp add: parseUnsignedInt_def word_sless_alt)
  have b: "generatePyEdges [0] 2147483648 0 = Some (Inl MaxDegreeBelowMinDegree)"
    using p by (simp add: generatePyEdges_def Let_def)
  show ?thesis by (rule conjI [OF a b])
qed

section \<open>The product \<open>nNodes * maxDegree\<close> wraps\<close>

lemma calculateDegreeFilter_4: "calculateDegreeFilter 4 = [56, 38, 21, 11]"
  by code_simp

lemma upt_0_4: "[0..<4] = [0, 1, 2, 3]"
  by code_simp

text \<open>
  Claim C3, at the input \<open>n = 4\<close>, \<open>maxDegree = 2 ^ 30\<close>, \<open>minDegree = 0\<close>: the product
  \<open>4 * 2 ^ 30\<close> is 0 in \<open>unsigned int\<close>, the range of edge counts \<open>3 .. 0\<close> is empty and
  no candidate is enumerated, although the value 7 has three set bits and passes the
  degree check.
\<close>

theorem candidateTrius_maxDegree_wraps:
  "candidateTrius 4 1073741824 0 = Some []
   \<and> popcountll 7 = 3
   \<and> checkDegrees 7 (calculateDegreeFilter 4) 4 1073741824 0"
proof -
  have a: "candidateTrius 4 1073741824 0 = Some []" by code_simp
  have b: "popcountll 7 = 3" by code_simp
  have p: "popcountll 0 = 0" "popcountll 6 = 2" "popcountll 5 = 2" "popcountll 3 = 2"
    by code_simp+
  have c: "checkDegrees 7 (calculateDegreeFilter 4) 4 1073741824 0"
    by (simp add: checkDegrees_def calculateDegreeFilter_4 upt_0_4 p)
  show ?thesis by (rule conjI [OF a conjI [OF b c]])
qed

text \<open>
  Claim C1, at the input \<open>nodes = [0, 0, 0, 0]\<close>, \<open>maxDegree = 2 ^ 30\<close>,
  \<open>minDegree = 0\<close>: the result is empty, although the path \<open>0 - 1 - 2 - 3\<close> (the
  adjacency value 37) passes the degree check and is found connected by the graph
  constructor.
\<close>

theorem generateEdges_maxDegree_wraps:
  "generateEdges [0, 0, 0, 0] 1073741824 0 = Some []
   \<and> checkDegrees 37 (calculateDegreeFilter 4) 4 1073741824 0
   \<and> map_option (\<lambda>g. (connected g, getEdges g))
        (newGraph [0, 0, 0, 0] 37 (calculateDegreeFilter 4) (adjTriuMasks 4) [])
      = Some (True, [(0, 1), (1, 2), (2, 3)])"
proof -
  have a: "generateEdges [0, 0, 0, 0] 1073741824 0 = Some []" by code_simp
  have p: "popcountll 32 = 1" "popcountll 36 = 2" "popcountll 5 = 2" "popcountll 1 = 1"
    by code_simp+
  have b: "checkDegrees 37 (calculateDegreeFilter 4) 4 1073741824 0"
    by (simp add: checkDegrees_def calculateDegreeFilter_4 upt_0_4 p)
  have c: "map_option (\<lambda>g. (connected g, getEdges g))
        (newGraph [0, 0, 0, 0] 37 (calculateDegreeFilter 4) (adjTriuMasks 4) [])
      = Some (True, [(0, 1), (1, 2), (2, 3)])" by code_simp
  show ?thesis by (rule conjI [OF a conjI [OF b c]])
qed

end
